theory Spec2Isabelle
  imports Main
begin

section \<open>Characters and Python string primitives\<close>

text \<open>
  Python text is modelled as \<open>string\<close>; a character stands for one code point below 256.
  The four characters the scanner's pattern names are written by code.
\<close>

abbreviation LF :: char where "LF \<equiv> CHR 0x0A"
abbreviation CR :: char where "CR \<equiv> CHR 0x0D"
abbreviation DQ :: char where "DQ \<equiv> CHR 0x22"
abbreviation SQ :: char where "SQ \<equiv> CHR 0x27"
abbreviation SP :: char where "SP \<equiv> CHR 0x20"

text \<open>\<^verbatim>\<open>s.strip(chars)\<close>: drop the characters satisfying \<open>P\<close> from both ends.\<close>

definition py_strip :: "(char \<Rightarrow> bool) \<Rightarrow> string \<Rightarrow> string" where
  "py_strip P s = rev (dropWhile P (rev (dropWhile P s)))"

text \<open>\<^verbatim>\<open>p.strip(" ")\<close>: only the space character is stripped.\<close>

definition strip_sp :: "string \<Rightarrow> string" where
  "strip_sp s = py_strip (\<lambda>c. c = SP) s"

text \<open>
  \<^verbatim>\<open>str.isspace\<close> on code points below 256: tab, line feed, vertical tab, form feed,
  carriage return, the four separators 0x1C..0x1F, space, NEL and the no-break space.
\<close>

definition py_isspace :: "char \<Rightarrow> bool" where
  "py_isspace c = (c \<in> set [CHR 0x09, CHR 0x0A, CHR 0x0B, CHR 0x0C, CHR 0x0D,
                            CHR 0x1C, CHR 0x1D, CHR 0x1E, CHR 0x1F, CHR 0x20,
                            CHR 0x85, CHR 0xA0])"

text \<open>\<^verbatim>\<open>s.strip()\<close>: whitespace is stripped from both ends.\<close>

definition strip_ws :: "string \<Rightarrow> string" where
  "strip_ws s = py_strip py_isspace s"

text \<open>\<^verbatim>\<open>s.startswith(p)\<close>.\<close>

definition startswith :: "string \<Rightarrow> string \<Rightarrow> bool" where
  "startswith s p = (take (length p) s = p)"

text \<open>\<^verbatim>\<open>p in s\<close> for strings: \<open>p\<close> occurs as a contiguous substring of \<open>s\<close>.\<close>

fun py_in :: "string \<Rightarrow> string \<Rightarrow> bool" where
  "py_in p [] = (p = [])"
| "py_in p (c # cs) = (startswith (c # cs) p \<or> py_in p cs)"

section \<open>The scanner: the regular expression of \<^verbatim>\<open>re.split\<close>\<close>

text \<open>
  Both cleaners split on a four-way alternation, tried in order at each position:
  \<^verbatim>\<open>".*"\<close>, \<^verbatim>\<open>'.*'\<close>, \<^verbatim>\<open>#B*\<close> and \<^verbatim>\<open>//B*\<close>, where the comment body \<^verbatim>\<open>B\<close> is
  \<^verbatim>\<open>[^\r\n]\<close> in \<^verbatim>\<open>cJSONStr._clean\<close> and \<^verbatim>\<open>.\<close> in \<^verbatim>\<open>cJSONFile._clean\<close>.
  Without DOTALL the dot matches every character but the line feed.
\<close>

text \<open>\<^verbatim>\<open>.*\<close> taken greedily: the longest run without a line feed.\<close>

definition dot_star :: "string \<Rightarrow> string" where
  "dot_star s = takeWhile (\<lambda>c. c \<noteq> LF) s"

text \<open>\<^verbatim>\<open>[^\r\n]*\<close> taken greedily.\<close>

definition not_crlf_star :: "string \<Rightarrow> string" where
  "not_crlf_star s = takeWhile (\<lambda>c. c \<noteq> CR \<and> c \<noteq> LF) s"

text \<open>
  \<^verbatim>\<open>q.*q\<close> at the head of \<open>s\<close>: after the opening quote the greedy run is given back
  character by character until a closing quote follows, so the match ends at the last
  quote of the run; with no quote in the run the alternative fails. The result is the
  length of the match.
\<close>

definition alt_quoted :: "char \<Rightarrow> string \<Rightarrow> nat option" where
  "alt_quoted q s =
     (case s of
        [] \<Rightarrow> None
      | c # cs \<Rightarrow>
          if c = q \<and> q \<in> set (dot_star cs)
          then Some (Suc (length (rev (dropWhile (\<lambda>x. x \<noteq> q) (rev (dot_star cs))))))
          else None)"

text \<open>\<^verbatim>\<open>#B*\<close> at the head of \<open>s\<close>, for the comment body run \<open>body\<close>.\<close>

definition alt_hash :: "(string \<Rightarrow> string) \<Rightarrow> string \<Rightarrow> nat option" where
  "alt_hash body s =
     (case s of
        [] \<Rightarrow> None
      | c # cs \<Rightarrow> if c = CHR ''#'' then Some (Suc (length (body cs))) else None)"

text \<open>\<^verbatim>\<open>//B*\<close> at the head of \<open>s\<close>.\<close>

definition alt_slashes :: "(string \<Rightarrow> string) \<Rightarrow> string \<Rightarrow> nat option" where
  "alt_slashes body s =
     (case s of
        c # d # ds \<Rightarrow>
          if c = CHR ''/'' \<and> d = CHR ''/'' then Some (Suc (Suc (length (body ds)))) else None
      | _ \<Rightarrow> None)"

text \<open>The alternation: the first alternative that matches at this position wins.\<close>

definition re_match :: "(string \<Rightarrow> string) \<Rightarrow> string \<Rightarrow> nat option" where
  "re_match body s =
     (case alt_quoted DQ s of
        Some n \<Rightarrow> Some n
      | None \<Rightarrow>
         (case alt_quoted SQ s of
            Some n \<Rightarrow> Some n
          | None \<Rightarrow>
             (case alt_hash body s of
                Some n \<Rightarrow> Some n
              | None \<Rightarrow> alt_slashes body s)))"

text \<open>
  The search for the leftmost match: the text before it, the match, the text after it.
\<close>

fun re_search :: "(string \<Rightarrow> string) \<Rightarrow> string \<Rightarrow> (string \<times> string \<times> string) option" where
  "re_search body [] = None"
| "re_search body (c # cs) =
     (case re_match body (c # cs) of
        Some n \<Rightarrow> Some ([], take n (c # cs), drop n (c # cs))
      | None \<Rightarrow>
         (case re_search body cs of
            None \<Rightarrow> None
          | Some (p, m, r) \<Rightarrow> Some (c # p, m, r)))"

lemma re_match_pos: "re_match body s = Some n \<Longrightarrow> 0 < n \<and> s \<noteq> []"
  by (auto simp: re_match_def alt_quoted_def alt_hash_def alt_slashes_def
           split: option.splits list.splits if_splits)

lemma re_search_shorter: "re_search body s = Some (p, m, r) \<Longrightarrow> length r < length s"
proof (induction s arbitrary: p)
  case Nil
  then show ?case by simp
next
  case (Cons c cs)
  show ?case
  proof (cases "re_match body (c # cs)")
    case (Some n)
    with Cons.prems re_match_pos[OF Some] show ?thesis by auto
  next
    case None
    with Cons.prems obtain p' where "re_search body cs = Some (p', m, r)"
      by (auto split: option.splits)
    from Cons.IH[OF this] show ?thesis by simp
  qed
qed

text \<open>
  \<^verbatim>\<open>re.split(pattern, string, maxsplit)\<close> with one capturing group around the whole
  pattern: the text before each match, then the match, and the rest of the string at the
  end. With \<open>maxsplit \<noteq> 0\<close> at most \<open>maxsplit\<close> splits are made and the rest of the
  string is the last element; \<open>n\<close> counts the splits made so far. The pattern never
  matches the empty string.
\<close>

function re_split_from :: "(string \<Rightarrow> string) \<Rightarrow> nat \<Rightarrow> nat \<Rightarrow> string \<Rightarrow> string list" where
  "re_split_from body maxsplit n s =
     (if maxsplit \<noteq> 0 \<and> maxsplit \<le> n then [s]
      else (case re_search body s of
              None \<Rightarrow> [s]
            | Some (p, m, r) \<Rightarrow> p # m # re_split_from body maxsplit (Suc n) r))"
  by pat_completeness auto
termination
  by (relation "measure (\<lambda>(body, maxsplit, n, s). length s)")
     (auto dest: re_search_shorter)

declare re_split_from.simps [simp del]

definition re_split :: "(string \<Rightarrow> string) \<Rightarrow> nat \<Rightarrow> string \<Rightarrow> string list" where
  "re_split body maxsplit s = re_split_from body maxsplit 0 s"

section \<open>The buffer cleaner: \<^verbatim>\<open>cJSONStr\<close>\<close>

text \<open>The value of the flag \<^verbatim>\<open>re.MULTILINE\<close>.\<close>

definition MULTILINE :: nat where
  "MULTILINE = 8"

text \<open>
  \<^verbatim>\<open>cJSONStr._clean\<close>: the third positional argument of \<^verbatim>\<open>re.split\<close> is \<open>maxsplit\<close>,
  and the source passes \<^verbatim>\<open>re.MULTILINE\<close> there.
\<close>

definition cJSONStr_clean :: "string \<Rightarrow> string" where
  "cJSONStr_clean cjson_str =
     concat (map strip_sp
       (filter (\<lambda>p. \<not> (startswith p ''//'' \<or> startswith p ''#''))
          (re_split not_crlf_star MULTILINE cjson_str)))"

text \<open>\<^verbatim>\<open>cJSONStr.__new__\<close>: the new string is the cleaned text.\<close>

definition cJSONStr :: "string \<Rightarrow> string" where
  "cJSONStr cjson_str = cJSONStr_clean cjson_str"

section \<open>The underlying text source: \<^verbatim>\<open>open\<close> and the file handle\<close>

text \<open>
  The exceptions the wrapper meets. \<^verbatim>\<open>ValueError\<close> carries its message, since both the
  wrapper and \<^verbatim>\<open>open\<close> raise it.
\<close>

datatype error =
    ValueError string
  | AttributeError
  | TypeError
  | StopIteration
  | FileNotFoundError
  | FileExistsError
  | UnsupportedOperation

text \<open>
  A file object: the name, mode and encoding it was opened with, whether it was opened in a
  binary mode, the lines it has not yet delivered, whether it can be read, and whether it
  has been closed.
\<close>

record handle =
  h_name :: string
  h_mode :: string
  h_encoding :: "string option"
  h_binary :: bool
  h_lines :: "string list"
  h_readable :: bool
  h_closed :: bool

text \<open>
  The world outside the wrapper: the files by path, each as the sequence of lines the text
  layer delivers, and the store of the file objects created so far. A file object is
  referred to by its index in the store.
\<close>

record world =
  files :: "(string \<times> string list) list"
  handles :: "handle list"

definition lookup_handle :: "world \<Rightarrow> nat \<Rightarrow> handle option" where
  "lookup_handle wd fid = (if fid < length (handles wd) then Some (handles wd ! fid) else None)"

text \<open>
  The built-in \<^verbatim>\<open>open(path, mode, encoding=encoding)\<close> of Python 3.7, the version the
  notebook ran on, as far as the wrapper uses it. First the mode string is checked, and a
  binary mode with an encoding is refused; all of this happens before the file is looked
  up. The encoding is taken to name a known codec.
\<close>

definition mode_reading :: "string \<Rightarrow> bool" where
  "mode_reading md = (CHR ''r'' \<in> set md \<or> CHR ''U'' \<in> set md)"

definition py_open_check :: "string \<Rightarrow> string option \<Rightarrow> error option" where
  "py_open_check md enc =
     (let creating = (CHR ''x'' \<in> set md);
          reading = mode_reading md;
          writing = (CHR ''w'' \<in> set md);
          appending = (CHR ''a'' \<in> set md);
          updating = (CHR ''+'' \<in> set md);
          text = (CHR ''t'' \<in> set md);
          binary = (CHR ''b'' \<in> set md)
      in
      if \<not> set md \<subseteq> set ''axrwb+tU''
        then Some (ValueError ''invalid mode'')
      else if \<not> distinct md
        then Some (ValueError ''invalid mode'')
      else if CHR ''U'' \<in> set md \<and> (creating \<or> writing \<or> appending \<or> updating)
        then Some (ValueError ''mode U cannot be combined with x, w, a, or +'')
      else if text \<and> binary
        then Some (ValueError ''can't have text and binary mode at once'')
      else if 1 < length (filter id [creating, reading, writing, appending])
        then Some (ValueError ''must have exactly one of create/read/write/append mode'')
      else if \<not> (creating \<or> reading \<or> writing \<or> appending)
        then Some (ValueError ''must have exactly one of create/read/write/append mode'')
      else if binary \<and> enc \<noteq> None
        then Some (ValueError ''binary mode doesn't take an encoding argument'')
      else None)"

text \<open>
  A new file object is put at the end of the store; with \<^verbatim>\<open>b\<close> in the mode it is a
  binary one. Reading needs the file to exist and starts at its first line; writing
  truncates or creates it; exclusive creation needs it not to exist; appending creates it
  if needed and starts at its end. Without \<^verbatim>\<open>+\<close> only a reading mode gives a readable
  object.
\<close>

definition new_handle ::
    "string \<Rightarrow> string \<Rightarrow> string option \<Rightarrow> string list \<Rightarrow> bool \<Rightarrow> (string \<times> string list) list \<Rightarrow>
     world \<Rightarrow> (error + nat) \<times> world" where
  "new_handle path md enc ls rd fs wd =
     (Inr (length (handles wd)),
      wd\<lparr>files := fs,
         handles := handles wd @
           [\<lparr>h_name = path, h_mode = md, h_encoding = enc,
             h_binary = (CHR ''b'' \<in> set md), h_lines = ls,
             h_readable = rd, h_closed = False\<rparr>]\<rparr>)"

definition py_open :: "string \<Rightarrow> string \<Rightarrow> string option \<Rightarrow> world \<Rightarrow> (error + nat) \<times> world" where
  "py_open path md enc wd =
     (case py_open_check md enc of
        Some e \<Rightarrow> (Inl e, wd)
      | None \<Rightarrow>
          (let updating = (CHR ''+'' \<in> set md) in
           if mode_reading md then
             (case map_of (files wd) path of
                None \<Rightarrow> (Inl FileNotFoundError, wd)
              | Some ls \<Rightarrow> new_handle path md enc ls True (files wd) wd)
           else if CHR ''w'' \<in> set md then
             new_handle path md enc [] updating ((path, []) # files wd) wd
           else if CHR ''x'' \<in> set md then
             (case map_of (files wd) path of
                None \<Rightarrow> new_handle path md enc [] updating ((path, []) # files wd) wd
              | Some ls \<Rightarrow> (Inl FileExistsError, wd))
           else
             (case map_of (files wd) path of
                None \<Rightarrow> new_handle path md enc [] updating ((path, []) # files wd) wd
              | Some ls \<Rightarrow> new_handle path md enc [] updating (files wd) wd)))"

text \<open>
  A line as a file object delivers it: a \<^verbatim>\<open>str\<close> from a text file, a \<^verbatim>\<open>bytes\<close> object
  from a binary one.
\<close>

datatype pyline = Str string | Bytes string

text \<open>
  \<^verbatim>\<open>next(f)\<close> on a file object: the next line, or \<^verbatim>\<open>StopIteration\<close> at the end. A
  reference outside the store does not arise, references being made by \<open>py_open\<close> only;
  it reads as a closed file.
\<close>

definition file_next :: "nat \<Rightarrow> world \<Rightarrow> (error + pyline) \<times> world" where
  "file_next fid wd =
     (case lookup_handle wd fid of
        None \<Rightarrow> (Inl (ValueError ''I/O operation on closed file''), wd)
      | Some h \<Rightarrow>
          if h_closed h then (Inl (ValueError ''I/O operation on closed file''), wd)
          else if \<not> h_readable h then (Inl UnsupportedOperation, wd)
          else (case h_lines h of
                  [] \<Rightarrow> (Inl StopIteration, wd)
                | l # ls \<Rightarrow>
                    (Inr (if h_binary h then Bytes l else Str l),
                     wd\<lparr>handles := (handles wd)[fid := h\<lparr>h_lines := ls\<rparr>]\<rparr>)))"

text \<open>\<^verbatim>\<open>f.close()\<close>: the file object is marked closed; closing twice is allowed.\<close>

definition file_close :: "nat \<Rightarrow> world \<Rightarrow> world" where
  "file_close fid wd =
     (case lookup_handle wd fid of
        None \<Rightarrow> wd
      | Some h \<Rightarrow> wd\<lparr>handles := (handles wd)[fid := h\<lparr>h_closed := True\<rparr>]\<rparr>)"

text \<open>
  Attribute values, as far as the claims read them: a truth value, a string, or any other
  member of the object, named.
\<close>

datatype pyvalue = PyBool bool | PyStr string | PyMember string

text \<open>The attributes of a text file object (Python 3.7) besides the three read by value.\<close>

definition file_attrs :: "string list" where
  "file_attrs =
     [''_CHUNK_SIZE'', ''__class__'', ''__del__'', ''__delattr__'', ''__dict__'', ''__dir__'',
      ''__doc__'', ''__enter__'', ''__eq__'', ''__exit__'', ''__format__'', ''__ge__'',
      ''__getattribute__'', ''__getstate__'', ''__gt__'', ''__hash__'', ''__init__'',
      ''__init_subclass__'', ''__iter__'', ''__le__'', ''__lt__'', ''__ne__'', ''__new__'',
      ''__next__'', ''__reduce__'', ''__reduce_ex__'', ''__repr__'', ''__setattr__'',
      ''__sizeof__'', ''__str__'', ''__subclasshook__'', ''_checkClosed'', ''_checkReadable'',
      ''_checkSeekable'', ''_checkWritable'', ''_finalizing'', ''buffer'', ''close'',
      ''detach'', ''encoding'', ''errors'', ''fileno'', ''flush'', ''isatty'',
      ''line_buffering'', ''newlines'', ''read'', ''readable'', ''readline'', ''readlines'',
      ''reconfigure'', ''seek'', ''seekable'', ''tell'', ''truncate'', ''writable'', ''write'',
      ''write_through'', ''writelines'']"

text \<open>
  The attributes of a binary file object besides these three; only one that can be read
  has \<^verbatim>\<open>peek\<close>. Its \<^verbatim>\<open>mode\<close> is not the mode string given to \<^verbatim>\<open>open\<close> but the one
  the raw file makes up from what it may do.
\<close>

definition binary_file_attrs :: "bool \<Rightarrow> string list" where
  "binary_file_attrs rd =
     [''__class__'', ''__del__'', ''__delattr__'', ''__dict__'', ''__dir__'', ''__doc__'',
      ''__enter__'', ''__eq__'', ''__exit__'', ''__format__'', ''__ge__'',
      ''__getattribute__'', ''__getstate__'', ''__gt__'', ''__hash__'', ''__init__'',
      ''__init_subclass__'', ''__iter__'', ''__le__'', ''__lt__'', ''__ne__'', ''__new__'',
      ''__next__'', ''__reduce__'', ''__reduce_ex__'', ''__repr__'', ''__setattr__'',
      ''__sizeof__'', ''__str__'', ''__subclasshook__'', ''_checkClosed'', ''_checkReadable'',
      ''_checkSeekable'', ''_checkWritable'', ''_dealloc_warn'', ''_finalizing'', ''close'',
      ''detach'', ''fileno'', ''flush'', ''isatty'', ''raw'', ''read'', ''read1'',
      ''readable'', ''readinto'', ''readinto1'', ''readline'', ''readlines'', ''seek'',
      ''seekable'', ''tell'', ''truncate'', ''writable'', ''write'', ''writelines''] @
     (if rd then [''peek''] else [])"

definition binary_mode :: "string \<Rightarrow> string" where
  "binary_mode md =
     (let updating = (CHR ''+'' \<in> set md) in
      if CHR ''x'' \<in> set md then (if updating then ''xb+'' else ''xb'')
      else if CHR ''a'' \<in> set md then (if updating then ''ab+'' else ''ab'')
      else if mode_reading md \<or> updating then (if updating then ''rb+'' else ''rb'')
      else ''wb'')"

text \<open>The attributes of \<^verbatim>\<open>None\<close> (Python 3.7).\<close>

definition none_attrs :: "string list" where
  "none_attrs =
     [''__bool__'', ''__class__'', ''__delattr__'', ''__dir__'', ''__doc__'', ''__eq__'',
      ''__format__'', ''__ge__'', ''__getattribute__'', ''__gt__'', ''__hash__'', ''__init__'',
      ''__init_subclass__'', ''__le__'', ''__lt__'', ''__ne__'', ''__new__'', ''__reduce__'',
      ''__reduce_ex__'', ''__repr__'', ''__setattr__'', ''__sizeof__'', ''__str__'',
      ''__subclasshook__'']"

text \<open>
  \<^verbatim>\<open>getattr(obj, attribute)\<close> for a file object and for \<^verbatim>\<open>None\<close>; the result \<open>None\<close>
  of the model says that the object has no such attribute, so \<^verbatim>\<open>hasattr\<close> is false.
\<close>

definition handle_getattr :: "handle \<Rightarrow> string \<Rightarrow> pyvalue option" where
  "handle_getattr h attribute =
     (if attribute = ''closed'' then Some (PyBool (h_closed h))
      else if attribute = ''name'' then Some (PyStr (h_name h))
      else if attribute = ''mode''
        then Some (PyStr (if h_binary h then binary_mode (h_mode h) else h_mode h))
      else if attribute \<in> set (if h_binary h then binary_file_attrs (h_readable h)
                                else file_attrs)
        then Some (PyMember attribute)
      else None)"

definition none_getattr :: "string \<Rightarrow> pyvalue option" where
  "none_getattr attribute =
     (if attribute \<in> set none_attrs then Some (PyMember attribute) else None)"

section \<open>The streaming cleaner: \<^verbatim>\<open>cJSONFile\<close>\<close>

text \<open>The wrapper object; \<open>file_handle = None\<close> is \<^verbatim>\<open>self._file = None\<close>.\<close>

record cJSONFile =
  file_path :: string
  mode :: string
  encoding :: "string option"
  file_handle :: "nat option"

definition binary_modes :: "string list" where
  "binary_modes = [''rb'', ''rb+'', ''wb'', ''wb+'', ''ab'', ''xb'', ''xb+'']"

text \<open>\<^verbatim>\<open>cJSONFile._open\<close>.\<close>

definition cJSONFile_open :: "cJSONFile \<Rightarrow> world \<Rightarrow> (error + nat) \<times> world" where
  "cJSONFile_open self wd = py_open (file_path self) (mode self) (encoding self) wd"

text \<open>\<^verbatim>\<open>cJSONFile.__init__\<close>.\<close>

definition cJSONFile_init ::
    "string \<Rightarrow> string \<Rightarrow> string option \<Rightarrow> world \<Rightarrow> (error + cJSONFile) \<times> world" where
  "cJSONFile_init path md enc wd =
     (if md \<in> set binary_modes
      then (Inl (ValueError ''Binary mode is not supported, use text mode.''), wd)
      else
        (let self = \<lparr>file_path = path, mode = md, encoding = enc, file_handle = None\<rparr>
         in case cJSONFile_open self wd of
              (Inl e, wd') \<Rightarrow> (Inl e, wd')
            | (Inr fid, wd') \<Rightarrow> (Inr (self\<lparr>file_handle := Some fid\<rparr>), wd')))"

text \<open>\<^verbatim>\<open>cJSONFile.__getattr__\<close>, called for the names the wrapper does not define.\<close>

definition cJSONFile_getattr :: "cJSONFile \<Rightarrow> world \<Rightarrow> string \<Rightarrow> error + pyvalue" where
  "cJSONFile_getattr self wd attribute =
     (case (case file_handle self of
              None \<Rightarrow> none_getattr attribute
            | Some fid \<Rightarrow>
                (case lookup_handle wd fid of
                   None \<Rightarrow> None
                 | Some h \<Rightarrow> handle_getattr h attribute)) of
        Some v \<Rightarrow> Inr v
      | None \<Rightarrow> Inl AttributeError)"

text \<open>\<^verbatim>\<open>cJSONFile.__enter__\<close>; the wrapper itself is the value returned.\<close>

definition cJSONFile_enter :: "cJSONFile \<Rightarrow> world \<Rightarrow> (error + unit) \<times> cJSONFile \<times> world" where
  "cJSONFile_enter self wd =
     (case file_handle self of
        None \<Rightarrow>
          (case cJSONFile_open self wd of
             (Inl e, wd') \<Rightarrow> (Inl e, self, wd')
           | (Inr fid, wd') \<Rightarrow> (Inr (), self\<lparr>file_handle := Some fid\<rparr>, wd'))
      | Some fid \<Rightarrow> (Inr (), self, wd))"

text \<open>
  \<^verbatim>\<open>cJSONFile._close\<close>: \<^verbatim>\<open>self._file.close()\<close>, then \<^verbatim>\<open>self._file = None\<close>. With
  \<^verbatim>\<open>self._file\<close> already \<^verbatim>\<open>None\<close> the attribute lookup \<^verbatim>\<open>None.close\<close> raises.
\<close>

definition cJSONFile_close :: "cJSONFile \<Rightarrow> world \<Rightarrow> (error + unit) \<times> cJSONFile \<times> world" where
  "cJSONFile_close self wd =
     (case file_handle self of
        None \<Rightarrow> (Inl AttributeError, self, wd)
      | Some fid \<Rightarrow> (Inr (), self\<lparr>file_handle := None\<rparr>, file_close fid wd))"

text \<open>\<^verbatim>\<open>cJSONFile.__exit__\<close>; it returns \<^verbatim>\<open>None\<close>, so an error raised in the scope goes on.\<close>

definition cJSONFile_exit :: "cJSONFile \<Rightarrow> world \<Rightarrow> (error + unit) \<times> cJSONFile \<times> world" where
  "cJSONFile_exit self wd = cJSONFile_close self wd"

text \<open>\<^verbatim>\<open>cJSONFile.__iter__\<close>; a file object is always true, so only \<^verbatim>\<open>None\<close> reopens.\<close>

definition cJSONFile_iter :: "cJSONFile \<Rightarrow> world \<Rightarrow> (error + unit) \<times> cJSONFile \<times> world" where
  "cJSONFile_iter self wd =
     (case file_handle self of
        None \<Rightarrow>
          (case cJSONFile_open self wd of
             (Inl e, wd') \<Rightarrow> (Inl e, self, wd')
           | (Inr fid, wd') \<Rightarrow> (Inr (), self\<lparr>file_handle := Some fid\<rparr>, wd'))
      | Some fid \<Rightarrow> (Inr (), self, wd))"

text \<open>\<^verbatim>\<open>cJSONFile._is_comment\<close>.\<close>

definition cJSONFile_is_comment :: "string \<Rightarrow> bool" where
  "cJSONFile_is_comment line =
     (let line = strip_ws line in startswith line ''//'' \<or> startswith line ''#'')"

text \<open>\<^verbatim>\<open>cJSONFile._clean\<close>; here \<^verbatim>\<open>re.split\<close> has no \<open>maxsplit\<close>, which is 0: no limit.\<close>

definition cJSONFile_clean :: "string \<Rightarrow> string" where
  "cJSONFile_clean line =
     (if py_in ''#'' line \<or> py_in ''//'' line
      then concat (map strip_sp
             (filter (\<lambda>p. \<not> cJSONFile_is_comment p) (re_split dot_star 0 line)))
      else line)"

text \<open>The number of lines a wrapper's file object still holds: the measure of the read loops.\<close>

definition lines_left :: "cJSONFile \<Rightarrow> world \<Rightarrow> nat" where
  "lines_left self wd =
     (case file_handle self of
        None \<Rightarrow> 0
      | Some fid \<Rightarrow> (case lookup_handle wd fid of None \<Rightarrow> 0 | Some h \<Rightarrow> length (h_lines h)))"

lemma file_next_less:
  "(Inr line, wd') = file_next fid wd \<Longrightarrow> file_handle self = Some fid \<Longrightarrow>
   lines_left self wd' < lines_left self wd"
  by (auto simp: file_next_def lines_left_def lookup_handle_def
           split: option.splits if_splits list.splits)

text \<open>
  \<^verbatim>\<open>cJSONFile.__next__\<close>: at the end of the file the wrapper closes it and raises
  \<^verbatim>\<open>StopIteration\<close> again; \<^verbatim>\<open>next(None)\<close> is a \<^verbatim>\<open>TypeError\<close>. On a line of
  \<^verbatim>\<open>bytes\<close> the test \<^verbatim>\<open>_is_comment\<close> raises \<^verbatim>\<open>TypeError\<close>: \<^verbatim>\<open>line.strip()\<close> gives
  \<^verbatim>\<open>bytes\<close>, whose \<^verbatim>\<open>startswith\<close> refuses the \<^verbatim>\<open>str\<close> argument \<^verbatim>\<open>"//"\<close>.
\<close>

function cJSONFile_next :: "cJSONFile \<Rightarrow> world \<Rightarrow> (error + string) \<times> cJSONFile \<times> world" where
  "cJSONFile_next self wd =
     (case file_handle self of
        None \<Rightarrow> (Inl TypeError, self, wd)
      | Some fid \<Rightarrow>
          (case file_next fid wd of
             (Inl e, wd') \<Rightarrow>
               if e = StopIteration then
                 (case cJSONFile_close self wd' of
                    (Inl e', self', wd'') \<Rightarrow> (Inl e', self', wd'')
                  | (Inr u, self', wd'') \<Rightarrow> (Inl StopIteration, self', wd''))
               else (Inl e, self, wd')
           | (Inr (Bytes b), wd') \<Rightarrow> (Inl TypeError, self, wd')
           | (Inr (Str line), wd') \<Rightarrow>
               if \<not> cJSONFile_is_comment line then (Inr (cJSONFile_clean line), self, wd')
               else cJSONFile_next self wd'))"
  by pat_completeness auto
termination
  by (relation "measure (\<lambda>(self, wd). lines_left self wd)") (auto dest: file_next_less)

declare cJSONFile_next.simps [simp del]

text \<open>\<^verbatim>\<open>cJSONFile.readline\<close>: at the end of the file the empty string, and no close.\<close>

function cJSONFile_readline :: "cJSONFile \<Rightarrow> world \<Rightarrow> (error + string) \<times> cJSONFile \<times> world" where
  "cJSONFile_readline self wd =
     (case file_handle self of
        None \<Rightarrow> (Inl TypeError, self, wd)
      | Some fid \<Rightarrow>
          (case file_next fid wd of
             (Inl e, wd') \<Rightarrow>
               if e = StopIteration then (Inr [], self, wd') else (Inl e, self, wd')
           | (Inr (Bytes b), wd') \<Rightarrow> (Inl TypeError, self, wd')
           | (Inr (Str line), wd') \<Rightarrow>
               if \<not> cJSONFile_is_comment line then (Inr (cJSONFile_clean line), self, wd')
               else cJSONFile_readline self wd'))"
  by pat_completeness auto
termination
  by (relation "measure (\<lambda>(self, wd). lines_left self wd)") (auto dest: file_next_less)

declare cJSONFile_readline.simps [simp del]

text \<open>
  \<^verbatim>\<open>cJSONFile.readlines\<close>: the comprehension runs over the file object itself until
  \<^verbatim>\<open>StopIteration\<close>; iterating \<^verbatim>\<open>None\<close> is a \<^verbatim>\<open>TypeError\<close>, and so is the test
  \<^verbatim>\<open>_is_comment\<close> on a line of \<^verbatim>\<open>bytes\<close>.
\<close>

function cJSONFile_readlines ::
    "cJSONFile \<Rightarrow> world \<Rightarrow> (error + string list) \<times> cJSONFile \<times> world" where
  "cJSONFile_readlines self wd =
     (case file_handle self of
        None \<Rightarrow> (Inl TypeError, self, wd)
      | Some fid \<Rightarrow>
          (case file_next fid wd of
             (Inl e, wd') \<Rightarrow>
               if e = StopIteration then (Inr [], self, wd') else (Inl e, self, wd')
           | (Inr (Bytes b), wd') \<Rightarrow> (Inl TypeError, self, wd')
           | (Inr (Str line), wd') \<Rightarrow>
               (case cJSONFile_readlines self wd' of
                  (Inl e, self', wd'') \<Rightarrow> (Inl e, self', wd'')
                | (Inr ls, self', wd'') \<Rightarrow>
                    (Inr (if \<not> cJSONFile_is_comment line then cJSONFile_clean line # ls else ls),
                     self', wd''))))"
  by pat_completeness auto
termination
  by (relation "measure (\<lambda>(self, wd). lines_left self wd)") (auto dest: file_next_less)

declare cJSONFile_readlines.simps [simp del]

text \<open>\<^verbatim>\<open>cJSONFile.read\<close>.\<close>

definition cJSONFile_read :: "cJSONFile \<Rightarrow> world \<Rightarrow> (error + string) \<times> cJSONFile \<times> world" where
  "cJSONFile_read self wd =
     (case cJSONFile_readlines self wd of
        (Inl e, self', wd') \<Rightarrow> (Inl e, self', wd')
      | (Inr ls, self', wd') \<Rightarrow> (Inr (concat ls), self', wd'))"

lemma cJSONFile_next_less:
  "cJSONFile_next self wd = (Inr line, self', wd') \<Longrightarrow>
   lines_left self' wd' < lines_left self wd"
proof (induction self wd rule: cJSONFile_next.induct)
  case (1 self wd)
  from "1.prems" obtain fid where fid: "file_handle self = Some fid"
    by (subst (asm) cJSONFile_next.simps) (auto split: option.splits)
  from "1.prems" fid obtain l wd1 where fn: "file_next fid wd = (Inr (Str l), wd1)"
    by (subst (asm) cJSONFile_next.simps)
       (auto simp: cJSONFile_close_def split: prod.splits sum.splits if_splits pyline.splits)
  have less: "lines_left self wd1 < lines_left self wd"
    using file_next_less[OF fn[symmetric] fid] .
  show ?case
  proof (cases "cJSONFile_is_comment l")
    case False
    with "1.prems" fid fn have "self' = self" "wd' = wd1"
      by (subst (asm) cJSONFile_next.simps, simp)+
    with less show ?thesis by simp
  next
    case True
    with "1.prems" fid fn have rec: "cJSONFile_next self wd1 = (Inr line, self', wd')"
      by (subst (asm) cJSONFile_next.simps) simp
    from "1.IH"[OF fid fn[symmetric] refl refl] True rec
    have "lines_left self' wd' < lines_left self wd1" by simp
    with less show ?thesis by simp
  qed
qed

text \<open>
  The \<^verbatim>\<open>for\<close> statement over the wrapper, as in \<^verbatim>\<open>[line for line in jf]\<close>:
  \<^verbatim>\<open>__iter__\<close> once, then \<^verbatim>\<open>__next__\<close> until it raises \<^verbatim>\<open>StopIteration\<close>, which ends
  the loop; any other error goes on to the caller.
\<close>

function for_body :: "cJSONFile \<Rightarrow> world \<Rightarrow> (error + string list) \<times> cJSONFile \<times> world" where
  "for_body self wd =
     (case cJSONFile_next self wd of
        (Inl e, self', wd') \<Rightarrow>
          if e = StopIteration then (Inr [], self', wd') else (Inl e, self', wd')
      | (Inr line, self', wd') \<Rightarrow>
          (case for_body self' wd' of
             (Inl e, self'', wd'') \<Rightarrow> (Inl e, self'', wd'')
           | (Inr ls, self'', wd'') \<Rightarrow> (Inr (line # ls), self'', wd'')))"
  by pat_completeness auto
termination
  by (relation "measure (\<lambda>(self, wd). lines_left self wd)")
     (auto dest: cJSONFile_next_less[OF sym])

declare for_body.simps [simp del]

definition for_loop :: "cJSONFile \<Rightarrow> world \<Rightarrow> (error + string list) \<times> cJSONFile \<times> world" where
  "for_loop self wd =
     (case cJSONFile_iter self wd of
        (Inl e, self', wd') \<Rightarrow> (Inl e, self', wd')
      | (Inr u, self', wd') \<Rightarrow> for_body self' wd')"

section \<open>Vocabulary of the specification\<close>

text \<open>
  A quoted string, in the specification's sense: a quote character followed, before the next
  line feed, by the same quote character.
\<close>

fun has_quoted :: "string \<Rightarrow> bool" where
  "has_quoted [] = False"
| "has_quoted (c # cs) =
     (((c = DQ \<or> c = SQ) \<and> c \<in> set (takeWhile (\<lambda>x. x \<noteq> LF) cs)) \<or> has_quoted cs)"

text \<open>
  A whole-line comment, in the specification's words: a line whose first characters after
  its leading whitespace, tabs included, are \<^verbatim>\<open>//\<close> or \<^verbatim>\<open>#\<close>.
\<close>

definition whole_line_comment :: "string \<Rightarrow> bool" where
  "whole_line_comment line =
     (let t = dropWhile py_isspace line in startswith t ''//'' \<or> startswith t ''#'')"

text \<open>The sequence of cleaned, non-comment lines of a sequence of raw lines.\<close>

definition cleaned_lines :: "string list \<Rightarrow> string list" where
  "cleaned_lines ls = map cJSONFile_clean (filter (\<lambda>l. \<not> cJSONFile_is_comment l) ls)"

text \<open>
  The world in which the file object \<open>fid\<close> has the lines \<open>ls\<close> left to deliver, and what it
  means for that file object to be open for reading in text mode.
\<close>

definition set_lines :: "nat \<Rightarrow> string list \<Rightarrow> world \<Rightarrow> world" where
  "set_lines fid ls wd = wd\<lparr>handles := (handles wd)[fid := (handles wd ! fid)\<lparr>h_lines := ls\<rparr>]\<rparr>"

definition readable_handle :: "world \<Rightarrow> nat \<Rightarrow> bool" where
  "readable_handle wd fid =
     (fid < length (handles wd) \<and> \<not> h_closed (handles wd ! fid) \<and>
      h_readable (handles wd ! fid) \<and> \<not> h_binary (handles wd ! fid))"

text \<open>
  Trimming: a text without its leading spaces, without its trailing spaces, and what a
  span may look like after trimming: the span itself, or the span without its leading
  spaces, without its trailing spaces, or without both. Nothing inside the span changes.
\<close>

definition lstrip_sp :: "string \<Rightarrow> string" where
  "lstrip_sp s = dropWhile (\<lambda>c. c = SP) s"

definition rstrip_sp :: "string \<Rightarrow> string" where
  "rstrip_sp s = rev (dropWhile (\<lambda>c. c = SP) (rev s))"

definition trimmed_of :: "string \<Rightarrow> string \<Rightarrow> bool" where
  "trimmed_of p a = (a = p \<or> a = lstrip_sp p \<or> a = rstrip_sp p \<or> a = strip_sp p)"

text \<open>
  The lines of a line-oriented source, as a text file opened with universal newlines
  delivers them: every line but the last ends with its only line feed, the last line may
  lack it, and no line holds a carriage return.
\<close>

definition complete_line :: "string \<Rightarrow> bool" where
  "complete_line l = (l \<noteq> [] \<and> last l = LF \<and> LF \<notin> set (butlast l) \<and> CR \<notin> set l)"

definition partial_line :: "string \<Rightarrow> bool" where
  "partial_line l = (l \<noteq> [] \<and> LF \<notin> set l \<and> CR \<notin> set l)"

fun line_source :: "string list \<Rightarrow> bool" where
  "line_source [] = True"
| "line_source (l # ls) = ((complete_line l \<or> (ls = [] \<and> partial_line l)) \<and> line_source ls)"

text \<open>A comment token: a span that begins with \<^verbatim>\<open>//\<close> or \<^verbatim>\<open>#\<close>.\<close>

definition comment_token :: "string \<Rightarrow> bool" where
  "comment_token p = (startswith p ''//'' \<or> startswith p ''#'')"

text \<open>
  The spans of a line that are not comment tokens, and the spans of the lines of a file
  that are kept: those of the lines that are not whole-line comments, in their order.
\<close>

definition line_spans :: "string \<Rightarrow> string list" where
  "line_spans l = filter (\<lambda>p. \<not> comment_token p) (re_split dot_star 0 l)"

definition kept_spans :: "string list \<Rightarrow> string list" where
  "kept_spans ls = concat (map line_spans (filter (\<lambda>l. \<not> whole_line_comment l) ls))"

text \<open>The spans of a text: what the buffer cleaner's pattern splits it into, with no limit.\<close>

definition spans :: "string \<Rightarrow> string list" where
  "spans s = re_split not_crlf_star 0 s"

text \<open>The number of tokens the scanner finds in a text.\<close>

function count_tokens :: "(string \<Rightarrow> string) \<Rightarrow> string \<Rightarrow> nat" where
  "count_tokens body s =
     (case re_search body s of
        None \<Rightarrow> 0
      | Some (p, m, r) \<Rightarrow> Suc (count_tokens body r))"
  by pat_completeness auto
termination
  by (relation "measure (\<lambda>(body, s). length s)") (auto dest: re_search_shorter)

declare count_tokens.simps [simp del]

text \<open>
  The buffer cleaner with no limit on the number of splits, the text \<open>u\<close> holding no
  position where the pattern matches when \<open>t\<close> follows it, and the spans of a list that
  are kept, stripped and joined.
\<close>

definition clean0 :: "string \<Rightarrow> string" where
  "clean0 s = concat (map strip_sp (filter (\<lambda>p. \<not> comment_token p) (spans s)))"

fun no_match :: "string \<Rightarrow> string \<Rightarrow> bool" where
  "no_match [] t = True"
| "no_match (c # u) t = (re_match not_crlf_star (c # u @ t) = None \<and> no_match u t)"

definition kept :: "string list \<Rightarrow> string" where
  "kept ps = concat (map strip_sp (filter (\<lambda>p. \<not> comment_token p) ps))"

section \<open>Example inputs\<close>

text \<open>A JSON list over nine lines, each with a trailing comment.\<close>

definition nine_comments :: string where
  "nine_comments =
     ''[1, #a'' @ [LF] @ ''2, #b'' @ [LF] @ ''3, #c'' @ [LF] @ ''4, #d'' @ [LF] @
     ''5, #e'' @ [LF] @ ''6, #f'' @ [LF] @ ''7, #g'' @ [LF] @ ''8, #h'' @ [LF] @
     ''9] #i''"

text \<open>A world with one file of one line, and nothing opened yet.\<close>

definition one_line_world :: world where
  "one_line_world = \<lparr>files = [(''a.json'', [''{}''])], handles = []\<rparr>"

text \<open>A wrapper over an open file object, as \<^verbatim>\<open>cJSONFile("a.json", "r")\<close> leaves it.\<close>

definition open_wrapper :: cJSONFile where
  "open_wrapper =
     \<lparr>file_path = ''a.json'', mode = ''r'', encoding = Some ''utf-8'', file_handle = Some 0\<rparr>"

definition open_world :: world where
  "open_world =
     \<lparr>files = [(''a.json'', [''{}''])],
      handles = [\<lparr>h_name = ''a.json'', h_mode = ''r'', h_encoding = Some ''utf-8'',
                  h_binary = False, h_lines = [''{}''], h_readable = True,
                  h_closed = False\<rparr>]\<rparr>"

text \<open>A whole-line comment indented with a tab, as in the demonstration file.\<close>

definition tab_comment :: string where
  "tab_comment = CHR 0x09 # ''// Integer'' @ [LF]"

text \<open>Four lines of a file: a whole-line comment and a trailing comment among them.\<close>

definition four_lines :: "string list" where
  "four_lines = [''{'' @ [LF], ''  // c'' @ [LF], ''  1 # x'' @ [LF], ''}'']"

section \<open>Facts about the scanner\<close>

lemma re_search_partition:
  "re_search body s = Some (p, m, r) \<Longrightarrow> s = p @ m @ r"
proof (induction s arbitrary: p)
  case Nil
  then show ?case by simp
next
  case (Cons c cs)
  show ?case
  proof (cases "re_match body (c # cs)")
    case (Some n)
    with Cons.prems show ?thesis by auto
  next
    case None
    with Cons.prems obtain p' where p': "re_search body cs = Some (p', m, r)" "p = c # p'"
      by (auto split: option.splits)
    from Cons.IH[OF p'(1)] p'(2) show ?thesis by simp
  qed
qed

text \<open>The spans of a split, put together again, are the text that was split.\<close>

lemma concat_re_split_from: "concat (re_split_from body k n s) = s"
proof (induction body k n s rule: re_split_from.induct)
  case (1 body maxsplit n s)
  show ?case
  proof (cases "maxsplit \<noteq> 0 \<and> maxsplit \<le> n")
    case True
    then show ?thesis by (subst re_split_from.simps) simp
  next
    case False
    show ?thesis
    proof (cases "re_search body s")
      case None
      with False show ?thesis by (subst re_split_from.simps) simp
    next
      case (Some t)
      obtain p m r where t: "t = (p, m, r)" by (cases t)
      from "1.IH"[OF False Some[unfolded t] refl refl]
      have "concat (re_split_from body maxsplit (Suc n) r) = r" .
      with False Some t re_search_partition[OF Some[unfolded t]] show ?thesis
        by (subst re_split_from.simps) simp
    qed
  qed
qed

lemma startswith_py_in: "startswith s p \<Longrightarrow> py_in p s"
  by (cases s) (auto simp: startswith_def)

lemma py_in_hash: "py_in ''#'' s \<longleftrightarrow> CHR ''#'' \<in> set s"
  by (induction s) (auto simp: startswith_def)

lemma re_match_None_plain:
  assumes "c \<noteq> CHR ''#''" "\<not> startswith (c # cs) ''//''"
    and "\<not> ((c = DQ \<or> c = SQ) \<and> c \<in> set (takeWhile (\<lambda>x. x \<noteq> LF) cs))"
  shows "re_match body (c # cs) = None"
  using assms
  by (auto simp: re_match_def alt_quoted_def alt_hash_def alt_slashes_def dot_star_def
        startswith_def split: list.splits)

lemma re_search_None_plain:
  "CHR ''#'' \<notin> set s \<Longrightarrow> \<not> py_in ''//'' s \<Longrightarrow> \<not> has_quoted s \<Longrightarrow> re_search body s = None"
proof (induction s)
  case Nil
  then show ?case by simp
next
  case (Cons c cs)
  then have "re_match body (c # cs) = None"
    by (intro re_match_None_plain) auto
  with Cons show ?case by simp
qed

lemma startswith_append: "startswith s p \<Longrightarrow> startswith (s @ b) p"
proof -
  assume "startswith s p"
  then have "take (length p) s = p" by (simp add: startswith_def)
  then have "length (take (length p) s) = length p" by simp
  then have "length p \<le> length s" by simp
  then have "take (length p) (s @ b) = take (length p) s" by simp
  with \<open>take (length p) s = p\<close> show ?thesis by (simp add: startswith_def)
qed

lemma py_in_append_right: "py_in p s \<Longrightarrow> py_in p (s @ b)"
proof (induction s)
  case Nil
  then show ?case by (cases b) (auto simp: startswith_def)
next
  case (Cons c cs)
  then show ?case using startswith_append[of "c # cs" p b] by auto
qed

lemma py_in_append_left: "py_in p s \<Longrightarrow> py_in p (a @ s)"
  by (induction a) auto

lemma rstrip_keep:
  "\<not> P x \<Longrightarrow> rev (dropWhile P (rev (a @ x # r))) = a @ x # rev (dropWhile P (rev r))"
  by (simp add: dropWhile_append3)

lemma py_strip_sublist: "\<exists>a b. s = a @ py_strip P s @ b"
proof -
  have 1: "s = takeWhile P s @ dropWhile P s" by simp
  define t where "t = dropWhile P s"
  have "rev t = takeWhile P (rev t) @ dropWhile P (rev t)" by simp
  then have "t = rev (dropWhile P (rev t)) @ rev (takeWhile P (rev t))"
    by (metis rev_append rev_rev_ident)
  with 1 show ?thesis unfolding py_strip_def t_def by (metis)
qed

lemma is_comment_has_marker:
  assumes "cJSONFile_is_comment p"
  shows "CHR ''#'' \<in> set p \<or> py_in ''//'' p"
proof -
  obtain a b where ab: "p = a @ strip_ws p @ b"
    unfolding strip_ws_def using py_strip_sublist by blast
  from assms have "startswith (strip_ws p) ''//'' \<or> startswith (strip_ws p) ''#''"
    by (simp add: cJSONFile_is_comment_def Let_def)
  then have "py_in ''//'' (strip_ws p) \<or> py_in ''#'' (strip_ws p)"
    using startswith_py_in by blast
  then have "py_in ''//'' p \<or> py_in ''#'' p"
    using py_in_append_left py_in_append_right ab by metis
  then show ?thesis by (auto simp: py_in_hash)
qed








section \<open>Facts about the read loops\<close>

lemma readable_set_lines [simp]: "readable_handle (set_lines fid ls wd) fid = readable_handle wd fid"
  by (auto simp: readable_handle_def set_lines_def)

lemma set_lines_twice [simp]: "set_lines fid ls (set_lines fid ls' wd) = set_lines fid ls wd"
  by (cases "fid < length (handles wd)") (simp_all add: set_lines_def list_update_beyond)

lemma file_next_Cons:
  "readable_handle wd fid \<Longrightarrow>
   file_next fid (set_lines fid (l # ls) wd) = (Inr (Str l), set_lines fid ls wd)"
  by (simp add: file_next_def lookup_handle_def set_lines_def readable_handle_def)

lemma file_next_Nil:
  "readable_handle wd fid \<Longrightarrow>
   file_next fid (set_lines fid [] wd) = (Inl StopIteration, set_lines fid [] wd)"
  by (simp add: file_next_def lookup_handle_def set_lines_def readable_handle_def)

lemma readlines_eq:
  assumes "file_handle self = Some fid" "readable_handle wd fid"
  shows "cJSONFile_readlines self (set_lines fid ls wd) =
           (Inr (cleaned_lines ls), self, set_lines fid [] wd)"
proof (induction ls)
  case Nil
  show ?case using assms
    by (subst cJSONFile_readlines.simps) (simp add: file_next_Nil cleaned_lines_def)
next
  case (Cons l ls)
  show ?case using assms Cons
    by (subst cJSONFile_readlines.simps) (simp add: file_next_Cons cleaned_lines_def)
qed

lemma next_eq:
  assumes "file_handle self = Some fid" "readable_handle wd fid"
  shows "cJSONFile_next self (set_lines fid ls wd) =
           (case dropWhile cJSONFile_is_comment ls of
              [] \<Rightarrow> (Inl StopIteration, self\<lparr>file_handle := None\<rparr>,
                     file_close fid (set_lines fid [] wd))
            | l # r \<Rightarrow> (Inr (cJSONFile_clean l), self, set_lines fid r wd))"
proof (induction ls)
  case Nil
  show ?case using assms
    by (subst cJSONFile_next.simps) (simp add: file_next_Nil cJSONFile_close_def)
next
  case (Cons l ls)
  show ?case using assms Cons
    by (subst cJSONFile_next.simps) (simp add: file_next_Cons)
qed

lemma readline_eq:
  assumes "file_handle self = Some fid" "readable_handle wd fid"
  shows "cJSONFile_readline self (set_lines fid ls wd) =
           (case dropWhile cJSONFile_is_comment ls of
              [] \<Rightarrow> (Inr [], self, set_lines fid [] wd)
            | l # r \<Rightarrow> (Inr (cJSONFile_clean l), self, set_lines fid r wd))"
proof (induction ls)
  case Nil
  show ?case using assms
    by (subst cJSONFile_readline.simps) (simp add: file_next_Nil)
next
  case (Cons l ls)
  show ?case using assms Cons
    by (subst cJSONFile_readline.simps) (simp add: file_next_Cons)
qed

lemma for_body_eq:
  assumes "file_handle self = Some fid" "readable_handle wd fid"
  shows "for_body self (set_lines fid ls wd) =
           (Inr (cleaned_lines ls), self\<lparr>file_handle := None\<rparr>,
            file_close fid (set_lines fid [] wd))"
proof (induction ls rule: length_induct)
  case (1 ls)
  show ?case
  proof (cases "dropWhile cJSONFile_is_comment ls")
    case Nil
    then have "\<forall>x\<in>set ls. cJSONFile_is_comment x" by (simp add: dropWhile_eq_Nil_conv)
    then have "cleaned_lines ls = []" by (simp add: cleaned_lines_def)
    moreover have "cJSONFile_next self (set_lines fid ls wd) =
        (Inl StopIteration, self\<lparr>file_handle := None\<rparr>, file_close fid (set_lines fid [] wd))"
      unfolding next_eq[OF assms] Nil by simp
    ultimately show ?thesis
      by (subst for_body.simps) simp
  next
    case (Cons l r)
    have "length (l # r) \<le> length ls"
      using length_dropWhile_le[of cJSONFile_is_comment ls] unfolding Cons .
    then have len: "length r < length ls" by simp
    have nc: "\<not> cJSONFile_is_comment l" using Cons
      by (metis hd_dropWhile list.distinct(1) list.sel(1))
    have "ls = takeWhile cJSONFile_is_comment ls @ l # r"
      using Cons by (metis takeWhile_dropWhile_id)
    then have "cleaned_lines ls = cleaned_lines (takeWhile cJSONFile_is_comment ls) @ cleaned_lines (l # r)"
      by (metis cleaned_lines_def filter_append map_append)
    moreover have "cleaned_lines (takeWhile cJSONFile_is_comment ls) = []"
      by (simp add: cleaned_lines_def filter_empty_conv) (meson set_takeWhileD)
    ultimately have cl: "cleaned_lines ls = cJSONFile_clean l # cleaned_lines r"
      using nc by (simp add: cleaned_lines_def)
    from 1 len have "for_body self (set_lines fid r wd) =
           (Inr (cleaned_lines r), self\<lparr>file_handle := None\<rparr>,
            file_close fid (set_lines fid [] wd))" by blast
    moreover have "cJSONFile_next self (set_lines fid ls wd) =
        (Inr (cJSONFile_clean l), self, set_lines fid r wd)"
      unfolding next_eq[OF assms] Cons by simp
    ultimately show ?thesis using cl
      by (subst for_body.simps) simp
  qed
qed

lemma strip_keep_head:
  "\<not> P x \<Longrightarrow> py_strip P (x # xs) = x # rev (dropWhile P (rev xs))"
  by (simp add: py_strip_def dropWhile_append3)

text \<open>
  The test \<^verbatim>\<open>_is_comment\<close> strips the line at both ends; for its answer only the
  leading whitespace matters.
\<close>

lemma rstrip_Cons:
  "rev (dropWhile P (rev (c # cs))) =
     (if P c \<and> (\<forall>x\<in>set cs. P x) then [] else c # rev (dropWhile P (rev cs)))"
  by (auto simp: dropWhile_append)

lemma startswith_rstrip:
  "\<forall>c\<in>set p. \<not> P c \<Longrightarrow> startswith (rev (dropWhile P (rev s))) p = startswith s p"
proof (induction s arbitrary: p)
  case Nil
  show ?case by simp
next
  case (Cons c cs)
  show ?case
  proof (cases p)
    case Nil
    then show ?thesis by (simp add: startswith_def)
  next
    case (Cons d ps)
    with Cons.prems have d: "\<not> P d" and ps: "\<forall>c\<in>set ps. \<not> P c" by auto
    have sw: "startswith (x # xs) (d # ps) = (x = d \<and> startswith xs ps)" for x xs
      by (auto simp: startswith_def)
    show ?thesis
    proof (cases "P c \<and> (\<forall>x\<in>set cs. P x)")
      case True
      with d have "c \<noteq> d" by auto
      with True show ?thesis unfolding Cons rstrip_Cons sw by (simp add: startswith_def)
    next
      case False
      have r: "rev (dropWhile P (rev (c # cs))) = c # rev (dropWhile P (rev cs))"
        using False by (subst rstrip_Cons) simp
      show ?thesis unfolding Cons r sw using Cons.IH[OF ps] by simp
    qed
  qed
qed

lemma is_comment_iff: "cJSONFile_is_comment l = whole_line_comment l"
proof -
  have "\<forall>c\<in>set ''//''. \<not> py_isspace c" "\<forall>c\<in>set ''#''. \<not> py_isspace c"
    by (simp_all add: py_isspace_def)
  then show ?thesis
    unfolding cJSONFile_is_comment_def whole_line_comment_def Let_def strip_ws_def py_strip_def
    by (simp only: startswith_rstrip)
qed

lemma is_comment_eq: "cJSONFile_is_comment = whole_line_comment"
  by (rule ext) (rule is_comment_iff)

lemma next_StopIteration_released:
  "cJSONFile_next self wd = (Inl StopIteration, self', wd') \<Longrightarrow> file_handle self' = None"
proof (induction self wd rule: cJSONFile_next.induct)
  case (1 self wd)
  from "1.prems" obtain fid where fid: "file_handle self = Some fid"
    by (subst (asm) cJSONFile_next.simps) (auto split: option.splits)
  obtain r wd1 where fn: "file_next fid wd = (r, wd1)" by (cases "file_next fid wd")
  show ?case
  proof (cases r)
    case (Inl e)
    with "1.prems" fid fn show ?thesis
      by (subst (asm) cJSONFile_next.simps)
         (auto simp: cJSONFile_close_def split: if_splits)
  next
    case (Inr y)
    show ?thesis
    proof (cases y)
      case (Bytes b)
      with "1.prems" fid fn Inr show ?thesis
        by (subst (asm) cJSONFile_next.simps) simp
    next
      case (Str l)
      show ?thesis
      proof (cases "cJSONFile_is_comment l")
        case False
        with "1.prems" fid fn Inr Str show ?thesis
          by (subst (asm) cJSONFile_next.simps) simp
      next
        case True
        with "1.prems" fid fn Inr Str
        have rec: "cJSONFile_next self wd1 = (Inl StopIteration, self', wd')"
          by (subst (asm) cJSONFile_next.simps) simp
        from "1.IH"[OF fid fn[symmetric] Inr Str] True rec show ?thesis by simp
      qed
    qed
  qed
qed

lemma set_lines_same:
  "fid < length (handles wd) \<Longrightarrow> h_lines (handles wd ! fid) = ls \<Longrightarrow> set_lines fid ls wd = wd"
  by (auto simp: set_lines_def)

text \<open>
  The \<^verbatim>\<open>for\<close> loop over a file object that is not closed: it fails on an object that
  cannot be read and on the first line of a binary one, and otherwise runs to the end.
\<close>

lemma for_body_unreadable:
  assumes "file_handle self = Some fid" "fid < length (handles wd)"
    and "\<not> h_closed (handles wd ! fid)" "\<not> h_readable (handles wd ! fid)"
  shows "for_body self wd = (Inl UnsupportedOperation, self, wd)"
  using assms
  by (subst for_body.simps, subst cJSONFile_next.simps)
     (simp add: file_next_def lookup_handle_def)

lemma for_body_bytes:
  assumes "file_handle self = Some fid" "fid < length (handles wd)"
    and "\<not> h_closed (handles wd ! fid)" "h_readable (handles wd ! fid)"
    and "h_binary (handles wd ! fid)" "h_lines (handles wd ! fid) \<noteq> []"
  shows "\<exists>wd'. for_body self wd = (Inl TypeError, self, wd')"
  using assms
  by (subst for_body.simps, subst cJSONFile_next.simps)
     (simp add: file_next_def lookup_handle_def split: list.splits)

lemma for_body_empty:
  assumes "file_handle self = Some fid" "fid < length (handles wd)"
    and "\<not> h_closed (handles wd ! fid)" "h_readable (handles wd ! fid)"
    and "h_lines (handles wd ! fid) = []"
  shows "for_body self wd = (Inr [], self\<lparr>file_handle := None\<rparr>, file_close fid wd)"
  using assms
  by (subst for_body.simps, subst cJSONFile_next.simps)
     (simp add: file_next_def lookup_handle_def cJSONFile_close_def)

lemma for_body_reader:
  assumes "file_handle self = Some fid" "fid < length (handles wd)"
    and "\<not> h_closed (handles wd ! fid)" "h_readable (handles wd ! fid)"
    and "\<not> h_binary (handles wd ! fid) \<or> h_lines (handles wd ! fid) = []"
  shows "for_body self wd =
           (Inr (cleaned_lines (h_lines (handles wd ! fid))), self\<lparr>file_handle := None\<rparr>,
            file_close fid (set_lines fid [] wd))"
proof (cases "h_lines (handles wd ! fid) = []")
  case True
  have "set_lines fid [] wd = wd" using set_lines_same[OF assms(2) True] .
  with for_body_empty[OF assms(1-4) True] True show ?thesis by (simp add: cleaned_lines_def)
next
  case False
  with assms have rd: "readable_handle wd fid" by (simp add: readable_handle_def)
  have "set_lines fid (h_lines (handles wd ! fid)) wd = wd"
    using set_lines_same[OF assms(2) refl] .
  with for_body_eq[OF assms(1) rd, of "h_lines (handles wd ! fid)"] show ?thesis by simp
qed

text \<open>
  What a successful \<^verbatim>\<open>open\<close> leaves, and that a mode without \<^verbatim>\<open>x\<close> opens the same file
  again with the same result.
\<close>

lemma py_open_Inr:
  assumes "py_open path md enc wd = (Inr fid, wd1)"
  shows "fid = length (handles wd) \<and> length (handles wd1) = Suc (length (handles wd)) \<and>
         h_name (handles wd1 ! fid) = path \<and> h_mode (handles wd1 ! fid) = md \<and>
         h_encoding (handles wd1 ! fid) = enc \<and> \<not> h_closed (handles wd1 ! fid) \<and>
         (if mode_reading md then map_of (files wd) path = Some (h_lines (handles wd1 ! fid))
          else h_lines (handles wd1 ! fid) = [])"
  using assms
  by (auto simp: py_open_def new_handle_def Let_def split: option.splits if_splits)

lemma py_open_again:
  assumes "py_open path md enc wd = (Inr fid, wd1)" and "CHR ''x'' \<notin> set md"
    and "map_of (files wd') path = map_of (files wd1) path"
  shows "fst (py_open path md enc wd') = Inr (length (handles wd')) \<and>
         handles (snd (py_open path md enc wd')) = handles wd' @ [handles wd1 ! fid]"
  using assms
  by (auto simp: py_open_def new_handle_def Let_def split: option.splits if_splits)

section \<open>Facts relating the two cleaners\<close>

text \<open>What a failed and a successful match say about the first characters.\<close>

lemma re_match_None_head:
  assumes "re_match body (c # cs) = None"
  shows "c \<noteq> CHR ''#'' \<and> \<not> startswith (c # cs) ''//''"
  using assms
  by (auto simp: re_match_def alt_quoted_def alt_hash_def alt_slashes_def startswith_def
           split: option.splits list.splits if_splits)

lemma re_search_None_markers:
  "re_search body s = None \<Longrightarrow> CHR ''#'' \<notin> set s \<and> \<not> py_in ''//'' s"
proof (induction s)
  case Nil
  then show ?case by (simp add: startswith_def)
next
  case (Cons c cs)
  then have m: "re_match body (c # cs) = None" and r: "re_search body cs = None"
    by (auto split: option.splits)
  from re_match_None_head[OF m] Cons.IH[OF r] show ?case by auto
qed

lemma re_search_prefix_markers:
  "re_search body s = Some (p, m, r) \<Longrightarrow> CHR ''#'' \<notin> set p \<and> \<not> py_in ''//'' p"
proof (induction s arbitrary: p)
  case Nil
  then show ?case by simp
next
  case (Cons c cs)
  show ?case
  proof (cases "re_match body (c # cs)")
    case (Some n)
    with Cons.prems show ?thesis by (auto simp: startswith_def)
  next
    case None
    with Cons.prems obtain p' where p': "re_search body cs = Some (p', m, r)" "p = c # p'"
      by (auto split: option.splits)
    from re_search_partition[OF p'(1)] have cs: "cs = p' @ m @ r" .
    from re_match_None_head[OF None] have h: "c \<noteq> CHR ''#''" "\<not> startswith (c # cs) ''//''"
      by auto
    have "\<not> startswith (c # p') ''//''"
      using h(2) startswith_append[of "c # p'" "''//''" "m @ r"] cs by auto
    with Cons.IH[OF p'(1)] h(1) p'(2) show ?thesis by auto
  qed
qed

lemma re_match_token_head:
  assumes "re_match body s = Some n"
  shows "\<exists>c cs. s = c # cs \<and> (c = DQ \<or> c = SQ \<or> c = CHR ''#'' \<or> startswith s ''//'') \<and>
         (comment_token (take n s) \<longleftrightarrow> c = CHR ''#'' \<or> startswith s ''//'') \<and> 0 < n \<and>
         (startswith s ''//'' \<longrightarrow> 2 \<le> n)"
  using assms
  by (cases s)
     (auto simp: re_match_def alt_quoted_def alt_hash_def alt_slashes_def startswith_def
        comment_token_def split: option.splits list.splits if_splits)


lemma re_search_match:
  "re_search body s = Some (p, m, r) \<Longrightarrow>
   \<exists>n. re_match body (m @ r) = Some n \<and> m = take n (m @ r)"
proof (induction s arbitrary: p)
  case Nil
  then show ?case by simp
next
  case (Cons c cs)
  show ?case
  proof (cases "re_match body (c # cs)")
    case (Some n)
    with Cons.prems have "m = take n (c # cs)" "r = drop n (c # cs)" by auto
    then have "m @ r = c # cs" by simp
    with Some \<open>m = take n (c # cs)\<close> show ?thesis by auto
  next
    case None
    with Cons.prems obtain p' where "re_search body cs = Some (p', m, r)"
      by (auto split: option.splits)
    from Cons.IH[OF this] show ?thesis .
  qed
qed

lemma is_comment_head:
  assumes "\<not> py_isspace c"
  shows "cJSONFile_is_comment (c # cs) \<longleftrightarrow>
           startswith (c # rev (dropWhile py_isspace (rev cs))) ''//'' \<or> c = CHR ''#''"
  using assms
  by (auto simp: cJSONFile_is_comment_def Let_def strip_ws_def strip_keep_head startswith_def)

lemma is_comment_token:
  assumes "re_match body s = Some n"
  shows "cJSONFile_is_comment (take n s) = comment_token (take n s)"
proof -
  from re_match_token_head[OF assms] obtain c cs where
    s: "s = c # cs" and hd: "c = DQ \<or> c = SQ \<or> c = CHR ''#'' \<or> startswith s ''//''"
    and ct: "comment_token (take n s) \<longleftrightarrow> c = CHR ''#'' \<or> startswith s ''//''"
    and n: "0 < n" and n2: "startswith s ''//'' \<longrightarrow> 2 \<le> n"
    by blast
  from n obtain k where k: "n = Suc k" by (cases n) auto
  have tk: "take n s = c # take k cs" by (simp add: s k)
  show ?thesis
  proof (cases "startswith s ''//''")
    case True
    then obtain ds where cs: "c = CHR ''/''" "cs = CHR ''/'' # ds"
      using s by (cases cs) (auto simp: startswith_def)
    from True n2 k obtain j where j: "k = Suc j" by (cases k) auto
    have ns: "\<not> py_isspace CHR ''/''" by (simp add: py_isspace_def)
    have "take n s = CHR ''/'' # CHR ''/'' # take j ds" by (simp add: tk cs j)
    moreover have "strip_ws (CHR ''/'' # CHR ''/'' # take j ds) =
        CHR ''/'' # CHR ''/'' # rev (dropWhile py_isspace (rev (take j ds)))"
      using ns by (simp add: strip_ws_def py_strip_def dropWhile_append3)
    ultimately have "cJSONFile_is_comment (take n s)"
      by (simp add: cJSONFile_is_comment_def Let_def startswith_def)
    with ct True show ?thesis by simp
  next
    case False
    with hd have c: "c = DQ \<or> c = SQ \<or> c = CHR ''#''" by simp
    have "\<not> py_isspace DQ" "\<not> py_isspace SQ" "\<not> py_isspace CHR ''#''"
      by (simp_all add: py_isspace_def)
    with c have ns: "\<not> py_isspace c" by auto
    have "c \<noteq> CHR ''/''" using c by auto
    then have "cJSONFile_is_comment (c # take k cs) \<longleftrightarrow> c = CHR ''#''"
      using is_comment_head[OF ns, of "take k cs"] by (auto simp: startswith_def)
    with ct False tk show ?thesis by simp
  qed
qed

lemma plain_not_comment:
  assumes "CHR ''#'' \<notin> set p" and "\<not> py_in ''//'' p"
  shows "\<not> cJSONFile_is_comment p" and "\<not> comment_token p"
proof -
  show "\<not> cJSONFile_is_comment p" using assms is_comment_has_marker by blast
  show "\<not> comment_token p"
    using assms startswith_py_in py_in_hash unfolding comment_token_def by blast
qed

lemma suffix_markers:
  assumes "CHR ''#'' \<notin> set (a @ b)" "\<not> py_in ''//'' (a @ b)"
  shows "CHR ''#'' \<notin> set b \<and> \<not> py_in ''//'' b"
  using assms py_in_append_left by auto

text \<open>Without a carriage return in the text the two comment bodies are the same run.\<close>

lemma not_crlf_star_dot_star: "CR \<notin> set s \<Longrightarrow> not_crlf_star s = dot_star s"
  unfolding not_crlf_star_def dot_star_def by (induction s) auto

lemma re_match_no_CR:
  assumes "CR \<notin> set s"
  shows "re_match not_crlf_star s = re_match dot_star s"
proof -
  have "alt_hash not_crlf_star s = alt_hash dot_star s"
    using assms by (auto simp: alt_hash_def not_crlf_star_dot_star split: list.splits)
  moreover have "alt_slashes not_crlf_star s = alt_slashes dot_star s"
    using assms by (auto simp: alt_slashes_def not_crlf_star_dot_star split: list.splits)
  ultimately show ?thesis by (simp add: re_match_def cong: option.case_cong)
qed

lemma re_search_no_CR:
  "CR \<notin> set s \<Longrightarrow> re_search not_crlf_star s = re_search dot_star s"
proof (induction s)
  case Nil
  show ?case by simp
next
  case (Cons c cs)
  then have "re_search not_crlf_star cs = re_search dot_star cs" by simp
  with re_match_no_CR[OF Cons.prems] show ?case by (simp cong: option.case_cong)
qed

text \<open>With no more tokens than the limit allows, the limited split is the unlimited one.\<close>

lemma re_split_from_unlimited: "re_split_from body 0 n s = re_split_from body 0 n' s"
proof (induction s arbitrary: n n' rule: length_induct)
  case (1 s)
  show ?case
  proof (cases "re_search body s")
    case None
    then show ?thesis by (subst (1 2) re_split_from.simps) simp
  next
    case (Some t)
    obtain p m r where t: "t = (p, m, r)" by (cases t)
    note S = Some[unfolded t]
    from re_search_shorter[OF S] 1
    have "re_split_from body 0 (Suc n) r = re_split_from body 0 (Suc n') r" by blast
    with S show ?thesis by (subst (1 2) re_split_from.simps) simp
  qed
qed

lemma re_split_from_within_limit:
  "n + count_tokens body s \<le> k \<Longrightarrow> re_split_from body k n s = re_split_from body 0 0 s"
proof (induction s arbitrary: n rule: length_induct)
  case (1 s)
  show ?case
  proof (cases "re_search body s")
    case None
    then show ?thesis by (subst (1 2) re_split_from.simps) simp
  next
    case (Some t)
    obtain p m r where t: "t = (p, m, r)" by (cases t)
    note S = Some[unfolded t]
    have ct: "count_tokens body s = Suc (count_tokens body r)"
      using S by (subst count_tokens.simps) simp
    with "1.prems" have lim: "\<not> (k \<noteq> 0 \<and> k \<le> n)" and "Suc n + count_tokens body r \<le> k" by auto
    with re_search_shorter[OF S] 1
    have "re_split_from body k (Suc n) r = re_split_from body 0 0 r" by blast
    also have "\<dots> = re_split_from body 0 (Suc 0) r" by (rule re_split_from_unlimited)
    finally show ?thesis using S lim by (subst (1 2) re_split_from.simps) simp
  qed
qed

text \<open>A match lies within its line.\<close>

lemma length_rev_dropWhile_le: "length (rev (dropWhile P (rev xs))) \<le> length xs"
  by (simp add: length_dropWhile_le le_trans[OF length_dropWhile_le])

lemma re_match_within_line:
  assumes "re_match dot_star (c # cs) = Some n"
  shows "n \<le> Suc (length (dot_star cs))"
proof -
  have q: "alt_quoted q (c # cs) = Some k \<Longrightarrow> k \<le> Suc (length (dot_star cs))" for q k
    using length_rev_dropWhile_le[of "\<lambda>x. x \<noteq> q" "dot_star cs"]
    by (auto simp: alt_quoted_def split: if_splits)
  have h: "alt_hash dot_star (c # cs) = Some k \<Longrightarrow> k \<le> Suc (length (dot_star cs))" for k
    by (auto simp: alt_hash_def split: if_splits)
  have sl: "alt_slashes dot_star (c # cs) = Some k \<Longrightarrow> k \<le> Suc (length (dot_star cs))" for k
    by (auto simp: alt_slashes_def dot_star_def split: if_splits list.splits)
  from assms q h sl show ?thesis
    by (auto simp: re_match_def split: option.splits)
qed

lemma dot_star_line: "LF \<in> set cs \<Longrightarrow> dot_star (cs @ rest) = dot_star cs"
  unfolding dot_star_def by (induction cs) auto

lemma re_match_local:
  assumes "LF \<in> set cs"
  shows "re_match dot_star (c # cs @ rest) = re_match dot_star (c # cs)"
proof -
  have "alt_quoted q (c # cs @ rest) = alt_quoted q (c # cs)" for q
    by (simp add: alt_quoted_def dot_star_line[OF assms])
  moreover have "alt_hash dot_star (c # cs @ rest) = alt_hash dot_star (c # cs)"
    by (simp add: alt_hash_def dot_star_line[OF assms])
  moreover have "alt_slashes dot_star (c # cs @ rest) = alt_slashes dot_star (c # cs)"
  proof (cases cs)
    case Nil
    with assms show ?thesis by simp
  next
    case (Cons d ds)
    show ?thesis
    proof (cases "d = LF")
      case True
      with Cons show ?thesis by (simp add: alt_slashes_def)
    next
      case False
      with assms Cons have "LF \<in> set ds" by auto
      from dot_star_line[OF this] Cons show ?thesis by (simp add: alt_slashes_def)
    qed
  qed
  ultimately show ?thesis by (simp add: re_match_def cong: option.case_cong)
qed

lemma re_match_LF: "re_match body (LF # rest) = None"
  by (auto simp: re_match_def alt_quoted_def alt_hash_def alt_slashes_def split: list.splits)

lemma dot_star_length_line: "length (dot_star (x @ [LF])) \<le> length x"
  unfolding dot_star_def by (induction x) auto

lemma re_search_local:
  "re_search dot_star (x @ LF # rest) =
     (case re_search dot_star (x @ [LF]) of
        Some (p, m, r) \<Rightarrow> Some (p, m, r @ rest)
      | None \<Rightarrow>
         (case re_search dot_star rest of
            None \<Rightarrow> None
          | Some (p, m, r) \<Rightarrow> Some (x @ LF # p, m, r)))"
proof (induction x)
  case Nil
  show ?case by (auto simp: re_match_LF split: option.splits)
next
  case (Cons c x)
  have loc: "re_match dot_star (c # x @ LF # rest) = re_match dot_star (c # x @ [LF])"
    using re_match_local[of "x @ [LF]" c rest] by simp
  show ?case
  proof (cases "re_match dot_star (c # x @ [LF])")
    case None
    with loc Cons.IH show ?thesis by (auto split: option.splits)
  next
    case (Some n)
    from re_match_within_line[OF Some] dot_star_length_line[of x]
    have n: "n \<le> Suc (length x)" by simp
    from re_match_pos[OF Some] obtain k where k: "n = Suc k" by (cases n) auto
    with n have "k \<le> length x" by simp
    then show ?thesis using Some loc k by simp
  qed
qed

lemma re_search_rest_LF:
  "re_search dot_star (x @ [LF]) = Some (p, m, r) \<Longrightarrow> r \<noteq> [] \<and> last r = LF"
proof (induction x arbitrary: p)
  case Nil
  then show ?case by (simp add: re_match_LF)
next
  case (Cons c x)
  show ?case
  proof (cases "re_match dot_star (c # x @ [LF])")
    case None
    with Cons.prems obtain p' where "re_search dot_star (x @ [LF]) = Some (p', m, r)"
      by (auto split: option.splits)
    from Cons.IH[OF this] show ?thesis .
  next
    case (Some n)
    from re_match_within_line[OF Some] dot_star_length_line[of x]
    have n: "n \<le> Suc (length x)" by simp
    from re_match_pos[OF Some] obtain k where k: "n = Suc k" by (cases n) auto
    with n have "k \<le> length x" by simp
    moreover from Cons.prems Some k have "r = drop k (x @ [LF])" by simp
    ultimately show ?thesis by simp
  qed
qed

lemma line_source_filter: "line_source ls \<Longrightarrow> line_source (filter P ls)"
  by (induction ls) auto

lemma line_source_no_CR: "line_source ls \<Longrightarrow> CR \<notin> set (concat ls)"
  by (induction ls) (auto simp: complete_line_def partial_line_def)

lemma cJSONStr_within_limit:
  assumes "count_tokens not_crlf_star t \<le> MULTILINE"
  shows "cJSONStr t =
     concat (map strip_sp
       (filter (\<lambda>p. \<not> (startswith p ''//'' \<or> startswith p ''#'')) (re_split not_crlf_star 0 t)))"
  using re_split_from_within_limit[of 0 not_crlf_star t MULTILINE] assms
  by (simp add: cJSONStr_def cJSONStr_clean_def re_split_def)

text \<open>
  The spans of a text found by the unlimited split, and what they look like when the text
  has no token or no carriage return.
\<close>

lemma re_split_None: "re_search body s = None \<Longrightarrow> re_split body 0 s = [s]"
  unfolding re_split_def by (subst re_split_from.simps) simp

lemma re_split_Some:
  "re_search body s = Some (p, m, r) \<Longrightarrow> re_split body 0 s = p # m # re_split body 0 r"
  unfolding re_split_def
  by (subst re_split_from.simps) (simp add: re_split_from_unlimited[of _ "Suc 0" _ 0])

lemma re_split_not_Nil: "re_split body 0 s \<noteq> []"
  by (cases "re_search body s") (auto simp: re_split_None re_split_Some)

lemma re_split_no_CR: "CR \<notin> set s \<Longrightarrow> re_split not_crlf_star 0 s = re_split dot_star 0 s"
proof (induction s rule: length_induct)
  case (1 s)
  note eq = re_search_no_CR[OF "1.prems"]
  show ?case
  proof (cases "re_search dot_star s")
    case None
    with eq show ?thesis by (simp add: re_split_None)
  next
    case (Some t)
    obtain p m r where t: "t = (p, m, r)" by (cases t)
    note S = Some[unfolded t]
    from re_search_partition[OF S] "1.prems" have "CR \<notin> set r" by auto
    with re_search_shorter[OF S] 1
    have "re_split not_crlf_star 0 r = re_split dot_star 0 r" by blast
    with eq S show ?thesis by (simp add: re_split_Some)
  qed
qed

lemma re_split_hd_plain:
  "CHR ''#'' \<notin> set (hd (re_split body 0 s)) \<and> \<not> py_in ''//'' (hd (re_split body 0 s))"
proof (cases "re_search body s")
  case None
  with re_search_None_markers[OF None] show ?thesis by (simp add: re_split_None)
next
  case (Some t)
  obtain p m r where t: "t = (p, m, r)" by (cases t)
  note S = Some[unfolded t]
  with re_search_prefix_markers[OF S] show ?thesis by (simp add: re_split_Some)
qed

lemma span_is_comment:
  "p \<in> set (re_split body 0 s) \<Longrightarrow> cJSONFile_is_comment p = comment_token p"
proof (induction s arbitrary: p rule: length_induct)
  case (1 s)
  show ?case
  proof (cases "re_search body s")
    case None
    with "1.prems" have "p = s" by (simp add: re_split_None)
    with re_search_None_markers[OF None] plain_not_comment[of p] show ?thesis by simp
  next
    case (Some t)
    obtain p0 m r where t: "t = (p0, m, r)" by (cases t)
    note S = Some[unfolded t]
    from "1.prems" have "p = p0 \<or> p = m \<or> p \<in> set (re_split body 0 r)"
      by (auto simp: re_split_Some[OF S])
    then show ?thesis
    proof (elim disjE)
      assume "p = p0"
      with re_search_prefix_markers[OF S] plain_not_comment[of p] show ?thesis by simp
    next
      assume pm: "p = m"
      from re_search_match[OF S] obtain n where
        "re_match body (m @ r) = Some n" "m = take n (m @ r)" by blast
      with is_comment_token[of body "m @ r" n] pm show ?thesis by simp
    next
      assume "p \<in> set (re_split body 0 r)"
      with re_search_shorter[OF S] 1 show ?thesis by blast
    qed
  qed
qed

lemma spans_no_markers:
  "CHR ''#'' \<notin> set s \<Longrightarrow> \<not> py_in ''//'' s \<Longrightarrow> p \<in> set (re_split body 0 s) \<Longrightarrow>
   \<not> comment_token p"
proof (induction s arbitrary: p rule: length_induct)
  case (1 s)
  show ?case
  proof (cases "re_search body s")
    case None
    with "1.prems" have "p = s" by (simp add: re_split_None)
    with "1.prems" plain_not_comment(2)[of p] show ?thesis by simp
  next
    case (Some t)
    obtain p0 m r where t: "t = (p0, m, r)" by (cases t)
    note S = Some[unfolded t]
    from re_search_partition[OF S] have s: "s = p0 @ m @ r" .
    have mr: "CHR ''#'' \<notin> set (m @ r) \<and> \<not> py_in ''//'' (m @ r)"
      using suffix_markers[of p0 "m @ r"] "1.prems" s by simp
    then have r: "CHR ''#'' \<notin> set r \<and> \<not> py_in ''//'' r"
      using suffix_markers[of m r] by simp
    have m: "\<not> comment_token m"
    proof
      assume "comment_token m"
      then have "py_in ''//'' m \<or> py_in ''#'' m"
        unfolding comment_token_def using startswith_py_in by blast
      then have "py_in ''//'' (m @ r) \<or> py_in ''#'' (m @ r)"
        using py_in_append_right by blast
      with mr show False by (simp add: py_in_hash)
    qed
    from "1.prems" have "p = p0 \<or> p = m \<or> p \<in> set (re_split body 0 r)"
      by (auto simp: re_split_Some[OF S])
    then show ?thesis
    proof (elim disjE)
      assume "p = p0"
      with re_search_prefix_markers[OF S] plain_not_comment(2)[of p] show ?thesis by simp
    next
      assume "p = m"
      with m show ?thesis by simp
    next
      assume "p \<in> set (re_split body 0 r)"
      with re_search_shorter[OF S] 1 r show ?thesis by blast
    qed
  qed
qed

text \<open>Stripping a text that goes over the end of a line.\<close>

lemma strip_sp_lr: "strip_sp s = rstrip_sp (lstrip_sp s)"
  by (simp add: strip_sp_def py_strip_def lstrip_sp_def rstrip_sp_def)

lemma lstrip_line: "lstrip_sp (x @ LF # h) = lstrip_sp x @ LF # h"
  unfolding lstrip_sp_def by (simp add: dropWhile_append)

lemma rstrip_line: "rstrip_sp (x @ LF # h) = x @ LF # rstrip_sp h"
  unfolding rstrip_sp_def using rstrip_keep[of "\<lambda>c. c = SP" LF x h] by simp

lemma strip_line: "strip_sp (x @ LF # h) = lstrip_sp (x @ [LF]) @ rstrip_sp h"
  unfolding strip_sp_lr lstrip_line rstrip_line by simp

lemma trimmed_of_simps [simp]:
  "trimmed_of p p" "trimmed_of p (lstrip_sp p)" "trimmed_of p (rstrip_sp p)"
  "trimmed_of p (strip_sp p)"
  by (simp_all add: trimmed_of_def)

lemma trimmed_of_same: "list_all2 trimmed_of xs xs"
  by (induction xs) simp_all

lemma trimmed_of_strip: "list_all2 trimmed_of xs (map strip_sp xs)"
  by (induction xs) simp_all

lemma comment_token_line: "comment_token (x @ LF # h) = comment_token (x @ [LF])"
  by (cases x; cases "tl x") (auto simp: comment_token_def startswith_def)

lemma kept_append: "kept (a @ b) = kept a @ kept b"
  by (simp add: kept_def)

text \<open>The spans of a text that begins with a whole line.\<close>

lemma re_split_last:
  "last (re_split dot_star 0 (x @ [LF])) \<noteq> [] \<and>
   last (last (re_split dot_star 0 (x @ [LF]))) = LF \<and>
   re_search dot_star (last (re_split dot_star 0 (x @ [LF]))) = None"
proof (induction x rule: length_induct)
  case (1 x)
  show ?case
  proof (cases "re_search dot_star (x @ [LF])")
    case None
    then show ?thesis by (simp add: re_split_None)
  next
    case (Some t)
    obtain p m r where t: "t = (p, m, r)" by (cases t)
    note S = Some[unfolded t]
    from re_search_rest_LF[OF S] obtain y where r: "r = y @ [LF]"
      by (metis append_butlast_last_id)
    from re_search_shorter[OF S] have "length y < length x" by (simp add: r)
    with 1 have "last (re_split dot_star 0 (y @ [LF])) \<noteq> [] \<and>
       last (last (re_split dot_star 0 (y @ [LF]))) = LF \<and>
       re_search dot_star (last (re_split dot_star 0 (y @ [LF]))) = None" by blast
    then show ?thesis using re_split_not_Nil[of dot_star r]
      by (simp add: re_split_Some[OF S] r)
  qed
qed

lemma re_split_local:
  "re_split dot_star 0 (x @ LF # rest) =
     butlast (re_split dot_star 0 (x @ [LF])) @
     [last (re_split dot_star 0 (x @ [LF])) @ hd (re_split dot_star 0 rest)] @
     tl (re_split dot_star 0 rest)"
proof (induction x rule: length_induct)
  case (1 x)
  note loc = re_search_local[of x rest]
  show ?case
  proof (cases "re_search dot_star (x @ [LF])")
    case None
    show ?thesis
    proof (cases "re_search dot_star rest")
      case N2: None
      have "re_search dot_star (x @ LF # rest) = None" unfolding loc None N2 by simp
      then show ?thesis by (simp add: re_split_None None N2)
    next
      case (Some t)
      obtain p m r where t: "t = (p, m, r)" by (cases t)
      note S = Some[unfolded t]
      have "re_search dot_star (x @ LF # rest) = Some (x @ LF # p, m, r)"
        unfolding loc None S by simp
      then show ?thesis by (simp add: re_split_None[OF None] re_split_Some S)
    qed
  next
    case (Some t)
    obtain p m r where t: "t = (p, m, r)" by (cases t)
    note S = Some[unfolded t]
    from re_search_rest_LF[OF S] obtain y where r: "r = y @ [LF]"
      by (metis append_butlast_last_id)
    from re_search_shorter[OF S] have "length y < length x" by (simp add: r)
    with 1 have IH: "re_split dot_star 0 (y @ LF # rest) =
       butlast (re_split dot_star 0 (y @ [LF])) @
       [last (re_split dot_star 0 (y @ [LF])) @ hd (re_split dot_star 0 rest)] @
       tl (re_split dot_star 0 rest)" by blast
    have S2: "re_search dot_star (x @ LF # rest) = Some (p, m, y @ LF # rest)"
      unfolding loc S by (simp add: r)
    show ?thesis
      unfolding re_split_Some[OF S2] re_split_Some[OF S] IH r
      using re_split_not_Nil[of dot_star "y @ [LF]"] by simp
  qed
qed

text \<open>
  Both outputs are made of the spans of the kept lines, each one trimmed: the streaming
  cleaner leaves the spans of a line without a marker as they are and strips those of
  the other lines; the buffer cleaner strips its own spans, whose plain ones may run over
  several lines.
\<close>

lemma trim_line:
  assumes "g = strip_sp \<or> g = rstrip_sp"
  shows "\<exists>t'. g (x @ LF # h) = t' @ rstrip_sp h \<and> trimmed_of (x @ [LF]) t'"
  using assms
proof
  assume "g = strip_sp"
  then have "g (x @ LF # h) = lstrip_sp (x @ [LF]) @ rstrip_sp h" by (simp add: strip_line)
  then show ?thesis using trimmed_of_simps(2) by blast
next
  assume "g = rstrip_sp"
  then have "g (x @ LF # h) = (x @ [LF]) @ rstrip_sp h" by (simp add: rstrip_line)
  then show ?thesis using trimmed_of_simps(1) by blast
qed

lemma trimmed_of_first: "g = strip_sp \<or> g = rstrip_sp \<Longrightarrow> trimmed_of p (g p)"
  by auto

lemma line_spans_Cons:
  "line_spans l = hd (re_split dot_star 0 l) #
     filter (\<lambda>p. \<not> comment_token p) (tl (re_split dot_star 0 l))"
proof -
  have "\<not> comment_token (hd (re_split dot_star 0 l))"
    using re_split_hd_plain[of dot_star l] plain_not_comment(2) by blast
  then show ?thesis
    unfolding line_spans_def using re_split_not_Nil[of dot_star l]
    by (cases "re_split dot_star 0 l") simp_all
qed

lemma buffer_pieces:
  assumes "line_source ls" and "g = strip_sp \<or> g = rstrip_sp"
  shows "\<exists>bs. g (hd (re_split dot_star 0 (concat ls))) @ kept (tl (re_split dot_star 0 (concat ls))) =
                concat bs \<and>
              list_all2 trimmed_of (concat (map line_spans ls)) bs"
  using assms
proof (induction ls arbitrary: g)
  case Nil
  have "g [] = []" using Nil.prems(2) by (auto simp: strip_sp_def py_strip_def rstrip_sp_def)
  then have "g (hd (re_split dot_star 0 (concat []))) @ kept (tl (re_split dot_star 0 (concat []))) =
         concat [] \<and> list_all2 trimmed_of (concat (map line_spans [])) []"
    by (simp add: re_split_None kept_def)
  then show ?case by blast
next
  case (Cons l ls)
  let ?S = "re_split dot_star 0"
  let ?K = "filter (\<lambda>p. \<not> comment_token p)"
  show ?case
  proof (cases "ls = []")
    case True
    have 1: "g (hd (?S (concat (l # ls)))) @ kept (tl (?S (concat (l # ls)))) =
             concat (g (hd (?S l)) # map strip_sp (?K (tl (?S l))))"
      using True by (simp add: kept_def)
    have "list_all2 trimmed_of (line_spans l) (g (hd (?S l)) # map strip_sp (?K (tl (?S l))))"
      unfolding line_spans_Cons
      using trimmed_of_first[OF Cons.prems(2)] trimmed_of_strip by simp
    then have 2: "list_all2 trimmed_of (concat (map line_spans (l # ls)))
             (g (hd (?S l)) # map strip_sp (?K (tl (?S l))))"
      using True by simp
    from 1 2 show ?thesis by blast
  next
    case False
    with Cons.prems(1) have cl: "complete_line l" and src: "line_source ls" by auto
    from cl obtain x where l: "l = x @ [LF]"
      unfolding complete_line_def by (metis append_butlast_last_id)
    define rest where "rest = concat ls"
    define B where "B = butlast (?S l)"
    define t where "t = last (?S l)"
    define h where "h = hd (?S rest)"
    define T where "T = tl (?S rest)"
    from re_split_last[of x] obtain y where ty: "t = y @ [LF]" and tn: "re_search dot_star t = None"
      unfolding t_def l by (metis append_butlast_last_id)
    have tc: "\<not> comment_token t"
      using re_search_None_markers[OF tn] plain_not_comment(2) by blast
    have Sl: "?S l = B @ [t]"
      unfolding B_def t_def using re_split_not_Nil[of dot_star l] by simp
    have whole: "?S (concat (l # ls)) = B @ [t @ h] @ T"
      using re_split_local[of x rest] unfolding l B_def t_def h_def T_def rest_def by simp
    from Cons.IH[OF src, of rstrip_sp] obtain bs' where
      bs': "rstrip_sp h @ kept T = concat bs'"
      and all': "list_all2 trimmed_of (concat (map line_spans ls)) bs'"
      unfolding h_def T_def rest_def by blast
    show ?thesis
    proof (cases B)
      case Nil
      from trim_line[OF Cons.prems(2), of y h] obtain t' where
        t': "g (t @ h) = t' @ rstrip_sp h" and tt: "trimmed_of t t'"
        unfolding ty by auto
      have ls1: "line_spans l = [t]"
        using tc unfolding line_spans_def Sl Nil by simp
      have "g (hd (?S (concat (l # ls)))) @ kept (tl (?S (concat (l # ls)))) = concat (t' # bs')"
        unfolding whole Nil using t' bs' by simp
      moreover have "list_all2 trimmed_of (concat (map line_spans (l # ls))) (t' # bs')"
        using tt all' by (simp add: ls1)
      ultimately show ?thesis by blast
    next
      case (Cons p0 mid)
      have p0: "\<not> comment_token p0"
        using re_split_hd_plain[of dot_star l] plain_not_comment(2)[of p0]
        unfolding Sl Cons by simp
      have th: "kept [t @ h] = lstrip_sp t @ rstrip_sp h"
        using tc comment_token_line[of y h] strip_line[of y h]
        unfolding ty kept_def by simp
      have ls1: "line_spans l = p0 # ?K mid @ [t]"
        using tc p0 unfolding line_spans_def Sl Cons by simp
      have "g (hd (?S (concat (l # ls)))) @ kept (tl (?S (concat (l # ls)))) =
            g p0 @ kept (mid @ [t @ h] @ T)"
        unfolding whole Cons by simp
      also have "\<dots> = g p0 @ kept mid @ (lstrip_sp t @ rstrip_sp h) @ kept T"
        by (simp only: kept_append th)
      also have "\<dots> = g p0 @ kept mid @ lstrip_sp t @ concat bs'"
        using bs' by simp
      also have "\<dots> = concat (g p0 # map strip_sp (?K mid) @ [lstrip_sp t] @ bs')"
        by (simp add: kept_def)
      finally have 1: "g (hd (?S (concat (l # ls)))) @ kept (tl (?S (concat (l # ls)))) =
            concat (g p0 # map strip_sp (?K mid) @ [lstrip_sp t] @ bs')" .
      have "list_all2 trimmed_of (p0 # ?K mid @ [t] @ concat (map line_spans ls))
              (g p0 # map strip_sp (?K mid) @ [lstrip_sp t] @ bs')"
        using trimmed_of_first[OF \<open>g = strip_sp \<or> g = rstrip_sp\<close>, of p0]
              trimmed_of_strip[of "?K mid"] all'
        by (auto intro!: list_all2_appendI)
      then have 2: "list_all2 trimmed_of (concat (map line_spans (l # ls)))
              (g p0 # map strip_sp (?K mid) @ [lstrip_sp t] @ bs')"
        by (simp add: ls1)
      from 1 2 show ?thesis by blast
    qed
  qed
qed

lemma clean_pieces:
  "\<exists>as. cJSONFile_clean l = concat as \<and> list_all2 trimmed_of (line_spans l) as"
proof (cases "py_in ''#'' l \<or> py_in ''//'' l")
  case True
  have "filter (\<lambda>p. \<not> cJSONFile_is_comment p) (re_split dot_star 0 l) = line_spans l"
    unfolding line_spans_def by (rule filter_cong) (simp_all add: span_is_comment)
  with True have "cJSONFile_clean l = concat (map strip_sp (line_spans l))"
    by (simp add: cJSONFile_clean_def)
  then show ?thesis using trimmed_of_strip by blast
next
  case False
  then have nm: "CHR ''#'' \<notin> set l" "\<not> py_in ''//'' l" by (simp_all add: py_in_hash)
  have "line_spans l = re_split dot_star 0 l"
    unfolding line_spans_def using spans_no_markers[OF nm] by (simp add: filter_id_conv)
  moreover have "cJSONFile_clean l = concat (re_split dot_star 0 l)"
    using False by (simp add: cJSONFile_clean_def re_split_def concat_re_split_from)
  ultimately show ?thesis using trimmed_of_same by metis
qed

lemma stream_pieces:
  "\<exists>as. concat (map cJSONFile_clean ks) = concat as \<and>
        list_all2 trimmed_of (concat (map line_spans ks)) as"
proof (induction ks)
  case Nil
  have "concat (map cJSONFile_clean []) = concat [] \<and>
        list_all2 trimmed_of (concat (map line_spans [])) []" by simp
  then show ?case by blast
next
  case (Cons l ks)
  from Cons.IH obtain as' where a': "concat (map cJSONFile_clean ks) = concat as'"
    "list_all2 trimmed_of (concat (map line_spans ks)) as'" by blast
  from clean_pieces[of l] obtain as where a: "cJSONFile_clean l = concat as"
    "list_all2 trimmed_of (line_spans l) as" by blast
  have "concat (map cJSONFile_clean (l # ks)) = concat (as @ as')" using a(1) a'(1) by simp
  moreover have "list_all2 trimmed_of (concat (map line_spans (l # ks))) (as @ as')"
    using a(2) a'(2) by (simp add: list_all2_appendI)
  ultimately show ?case by blast
qed

lemma buffer_spans:
  assumes "line_source ks" and "count_tokens not_crlf_star (concat ks) \<le> MULTILINE"
  shows "\<exists>bs. cJSONStr (concat ks) = concat bs \<and>
              list_all2 trimmed_of (concat (map line_spans ks)) bs"
proof -
  let ?S = "re_split dot_star 0 (concat ks)"
  have "cJSONStr (concat ks) = kept (re_split not_crlf_star 0 (concat ks))"
    unfolding cJSONStr_within_limit[OF assms(2)] by (simp add: kept_def comment_token_def)
  also have "\<dots> = kept ?S"
    using re_split_no_CR[OF line_source_no_CR[OF assms(1)]] by simp
  also have "\<dots> = kept (hd ?S # tl ?S)"
    using re_split_not_Nil[of dot_star "concat ks"] by simp
  also have "\<dots> = strip_sp (hd ?S) @ kept (tl ?S)"
    using re_split_hd_plain[of dot_star "concat ks"] plain_not_comment(2)[of "hd ?S"]
    by (simp add: kept_def)
  finally have "cJSONStr (concat ks) = strip_sp (hd ?S) @ kept (tl ?S)" .
  with buffer_pieces[OF assms(1), of strip_sp] show ?thesis by simp
qed

section \<open>Facts about cleaning twice\<close>

lemma spans_None: "re_search not_crlf_star s = None \<Longrightarrow> spans s = [s]"
  unfolding spans_def re_split_def by (subst re_split_from.simps) simp

lemma spans_Some:
  "re_search not_crlf_star s = Some (p, m, r) \<Longrightarrow> spans s = p # m # spans r"
  unfolding spans_def re_split_def
  by (subst re_split_from.simps) (simp add: re_split_from_unlimited[of _ "Suc 0" _ 0])

lemma clean0_None: "re_search not_crlf_star s = None \<Longrightarrow> clean0 s = strip_sp s"
  using re_search_None_markers[of not_crlf_star s] plain_not_comment(2)[of s]
  by (simp add: clean0_def spans_None)

lemma clean0_Some:
  assumes "re_search not_crlf_star s = Some (p, m, r)"
  shows "clean0 s = strip_sp p @ (if comment_token m then [] else strip_sp m) @ clean0 r"
  using re_search_prefix_markers[OF assms] plain_not_comment(2)[of p]
  by (simp add: clean0_def spans_Some[OF assms])

lemma no_match_append: "no_match (a @ b) t = (no_match a (b @ t) \<and> no_match b t)"
  by (induction a) auto

lemma search_no_match:
  "re_search not_crlf_star s = Some (p, m, r) \<Longrightarrow> no_match p (m @ r)"
proof (induction s arbitrary: p)
  case Nil
  then show ?case by simp
next
  case (Cons c cs)
  show ?case
  proof (cases "re_match not_crlf_star (c # cs)")
    case (Some n)
    with Cons.prems show ?thesis by auto
  next
    case None
    with Cons.prems obtain p' where p': "re_search not_crlf_star cs = Some (p', m, r)" "p = c # p'"
      by (auto split: option.splits)
    from re_search_partition[OF p'(1)] have "cs = p' @ m @ r" .
    with None Cons.IH[OF p'(1)] p'(2) show ?thesis by simp
  qed
qed

lemma search_None_no_match: "re_search not_crlf_star s = None \<Longrightarrow> no_match s []"
  by (induction s) (auto split: option.splits)

lemma no_match_search:
  "no_match u t \<Longrightarrow>
   re_search not_crlf_star (u @ t) =
     (case re_search not_crlf_star t of
        None \<Rightarrow> None
      | Some (p, m, r) \<Rightarrow> Some (u @ p, m, r))"
  by (induction u) (auto split: option.splits)

lemma re_match_None_iff:
  "re_match body (c # y) = None \<longleftrightarrow>
     c \<noteq> CHR ''#'' \<and> \<not> (c = CHR ''/'' \<and> startswith y ''/'') \<and>
     ((c = DQ \<or> c = SQ) \<longrightarrow> c \<notin> set (dot_star y))"
  by (cases y)
     (auto simp: re_match_def alt_quoted_def alt_hash_def alt_slashes_def startswith_def
           split: option.splits if_splits)

lemma dot_star_append:
  "dot_star (a @ b) = (if LF \<in> set a then dot_star a else a @ dot_star b)"
  unfolding dot_star_def by (induction a) auto

lemma dot_star_mono:
  "set (dot_star t') \<subseteq> set (dot_star t) \<Longrightarrow> set (dot_star (u @ t')) \<subseteq> set (dot_star (u @ t))"
  by (auto simp: dot_star_append)

lemma startswith_slash_append:
  "startswith (u @ t) ''/'' \<longleftrightarrow> (if u = [] then startswith t ''/'' else startswith u ''/'')"
  by (cases u) (auto simp: startswith_def)

lemma no_match_transfer:
  assumes "no_match u t" and "set (dot_star t') \<subseteq> set (dot_star t)"
    and "startswith t' ''/'' \<longrightarrow> startswith t ''/''"
  shows "no_match u t'"
  using assms(1)
proof (induction u)
  case Nil
  show ?case by simp
next
  case (Cons c u)
  then have n: "re_match not_crlf_star (c # u @ t) = None" and u: "no_match u t" by auto
  have "startswith (u @ t') ''/'' \<longrightarrow> startswith (u @ t) ''/''"
    using assms(3) by (simp add: startswith_slash_append)
  with n dot_star_mono[OF assms(2), of u] have "re_match not_crlf_star (c # u @ t') = None"
    unfolding re_match_None_iff by blast
  with Cons.IH[OF u] show ?case by simp
qed

text \<open>Stripping.\<close>

lemma rev_split: "t = rev (dropWhile P (rev t)) @ rev (takeWhile P (rev t))"
  using arg_cong[OF takeWhile_dropWhile_id[of P "rev t"], of rev]
  by (simp only: rev_append rev_rev_ident)

lemma py_strip_decomp:
  "takeWhile P s @ py_strip P s @ rev (takeWhile P (rev (dropWhile P s))) = s"
proof -
  define t where "t = dropWhile P s"
  have 1: "takeWhile P s @ t = s" by (simp add: t_def)
  have 2: "rev (dropWhile P (rev t)) @ rev (takeWhile P (rev t)) = t" by (rule rev_split[symmetric])
  have 3: "py_strip P s = rev (dropWhile P (rev t))" by (simp add: py_strip_def t_def)
  show ?thesis unfolding 3 t_def[symmetric] 2 1 ..
qed

lemma py_strip_ends:
  "py_strip P s = [] \<or> (\<not> P (hd (py_strip P s)) \<and> \<not> P (last (py_strip P s)))"
proof -
  define t where "t = dropWhile P s"
  define w where "w = dropWhile P (rev t)"
  have st: "py_strip P s = rev w" by (simp add: py_strip_def t_def w_def)
  show ?thesis
  proof (cases "w = []")
    case True
    then show ?thesis by (simp add: st)
  next
    case False
    then have hw: "\<not> P (hd w)" unfolding w_def by (simp add: hd_dropWhile)
    have "t \<noteq> []" using False unfolding w_def by auto
    then have ht: "\<not> P (hd t)" unfolding t_def by (simp add: hd_dropWhile)
    have "t = rev w @ rev (takeWhile P (rev t))" unfolding w_def by (rule rev_split)
    then have "hd t = hd (rev w @ rev (takeWhile P (rev t)))" by simp
    also have "\<dots> = hd (rev w)" using False by simp
    finally have "hd t = hd (rev w)" .
    with ht hw False show ?thesis by (simp add: st last_rev)
  qed
qed

lemma py_strip_fixed:
  assumes "s = [] \<or> (\<not> P (hd s) \<and> \<not> P (last s))"
  shows "py_strip P s = s"
proof (cases s rule: rev_cases)
  case Nil
  then show ?thesis by (simp add: py_strip_def)
next
  case (snoc ys y)
  with assms have l: "\<not> P y" and h: "\<not> P (hd s)" by auto
  have "s \<noteq> []" using snoc by simp
  then have "dropWhile P s = s" using h by (cases s) auto
  moreover have "dropWhile P (rev s) = rev s" using l snoc by simp
  ultimately show ?thesis by (simp add: py_strip_def)
qed

lemma py_strip_idem: "py_strip P (py_strip P s) = py_strip P s"
  using py_strip_ends[of P s] by (intro py_strip_fixed) auto

lemma py_strip_append_fixed:
  assumes "py_strip P a = a" and "py_strip P b = b"
  shows "py_strip P (a @ b) = a @ b"
proof (cases "a = [] \<or> b = []")
  case True
  with assms show ?thesis by auto
next
  case False
  from py_strip_ends[of P a] py_strip_ends[of P b] assms False
  have "\<not> P (hd a)" "\<not> P (last b)" by auto
  with False show ?thesis by (intro py_strip_fixed) auto
qed

lemma dot_star_prefix: "set (dot_star a) \<subseteq> set (dot_star (a @ b))"
  unfolding dot_star_def by (induction a) auto

lemma dot_star_spaces:
  "\<forall>x\<in>set a. x = SP \<Longrightarrow> dot_star (a @ b) = a @ dot_star b"
  unfolding dot_star_def by (induction a) auto

lemma dot_star_strip: "set (dot_star (strip_sp s)) \<subseteq> set (dot_star s)"
proof -
  let ?a = "takeWhile (\<lambda>c. c = SP) s"
  let ?b = "rev (takeWhile (\<lambda>c. c = SP) (rev (dropWhile (\<lambda>c. c = SP) s)))"
  have s: "?a @ strip_sp s @ ?b = s" unfolding strip_sp_def by (rule py_strip_decomp)
  have a: "\<forall>x\<in>set ?a. x = SP" by (auto dest: set_takeWhileD)
  have "set (dot_star (strip_sp s)) \<subseteq> set (dot_star (strip_sp s @ ?b))"
    by (rule dot_star_prefix)
  also have "\<dots> \<subseteq> set (dot_star (?a @ strip_sp s @ ?b))"
    unfolding dot_star_spaces[OF a] by simp
  finally show ?thesis unfolding s .
qed

text \<open>Tokens.\<close>

lemma not_crlf_star_le: "length (not_crlf_star s) \<le> length (dot_star s)"
  unfolding not_crlf_star_def dot_star_def by (induction s) auto

lemma re_match_in_line:
  assumes "re_match not_crlf_star (c # cs) = Some n"
  shows "n \<le> Suc (length (dot_star cs)) \<and> c \<noteq> LF"
proof -
  have q: "alt_quoted q (c # cs) = Some k \<Longrightarrow> k \<le> Suc (length (dot_star cs))" for q k
    using length_rev_dropWhile_le[of "\<lambda>x. x \<noteq> q" "dot_star cs"]
    by (auto simp: alt_quoted_def split: if_splits)
  have h: "alt_hash not_crlf_star (c # cs) = Some k \<Longrightarrow> k \<le> Suc (length (dot_star cs))" for k
    using not_crlf_star_le[of cs] by (auto simp: alt_hash_def split: if_splits)
  have sl: "alt_slashes not_crlf_star (c # cs) = Some k \<Longrightarrow> k \<le> Suc (length (dot_star cs))" for k
  proof (cases cs)
    case Nil
    then show "alt_slashes not_crlf_star (c # cs) = Some k \<Longrightarrow> ?thesis"
      by (simp add: alt_slashes_def)
  next
    case (Cons d ds)
    then show "alt_slashes not_crlf_star (c # cs) = Some k \<Longrightarrow> ?thesis"
      using not_crlf_star_le[of ds] by (auto simp: alt_slashes_def dot_star_def split: if_splits)
  qed
  have "c \<noteq> LF" using assms re_match_LF[of not_crlf_star cs] by auto
  with assms q h sl show ?thesis
    by (auto simp: re_match_def split: option.splits)
qed

lemma take_dot_star_no_LF: "n \<le> length (dot_star cs) \<Longrightarrow> LF \<notin> set (take n cs)"
proof -
  assume n: "n \<le> length (dot_star cs)"
  have "take n (dot_star cs @ dropWhile (\<lambda>c. c \<noteq> LF) cs) = take n (dot_star cs)"
    using n by simp
  then have "take n cs = take n (dot_star cs)" by (simp add: dot_star_def)
  moreover have "LF \<notin> set (dot_star cs)" unfolding dot_star_def by (auto dest: set_takeWhileD)
  ultimately show ?thesis by (auto dest: in_set_takeD)
qed

lemma token_no_LF:
  assumes "re_search not_crlf_star s = Some (p, m, r)"
  shows "LF \<notin> set m"
proof -
  from re_search_match[OF assms] obtain n where
    n: "re_match not_crlf_star (m @ r) = Some n" and m: "m = take n (m @ r)" by blast
  from re_match_pos[OF n] obtain c cs k where s: "m @ r = c # cs" and k: "n = Suc k"
    by (cases "m @ r"; cases n) auto
  from re_match_in_line[OF n[unfolded s]] k have "k \<le> length (dot_star cs)" "c \<noteq> LF" by auto
  from take_dot_star_no_LF[OF this(1)] this(2) have "LF \<notin> set (take n (c # cs))"
    by (simp add: k)
  moreover have "m = take n (c # cs)" using m s by simp
  ultimately show ?thesis by simp
qed

lemma strip_sp_no_LF_iff: "LF \<in> set (strip_sp p) \<longleftrightarrow> LF \<in> set p"
proof -
  let ?a = "takeWhile (\<lambda>c. c = SP) p"
  let ?b = "rev (takeWhile (\<lambda>c. c = SP) (rev (dropWhile (\<lambda>c. c = SP) p)))"
  have s: "?a @ strip_sp p @ ?b = p" unfolding strip_sp_def by (rule py_strip_decomp)
  have a: "LF \<notin> set ?a" by (auto dest: set_takeWhileD)
  have b: "LF \<notin> set ?b" by (auto dest: set_takeWhileD)
  have "LF \<in> set (?a @ strip_sp p @ ?b) \<longleftrightarrow> LF \<in> set (strip_sp p)" using a b by simp
  then show ?thesis unfolding s by simp
qed

lemma set_strip_sp: "set (strip_sp p) \<subseteq> set p"
proof -
  let ?a = "takeWhile (\<lambda>c. c = SP) p"
  let ?b = "rev (takeWhile (\<lambda>c. c = SP) (rev (dropWhile (\<lambda>c. c = SP) p)))"
  have s: "?a @ strip_sp p @ ?b = p" unfolding strip_sp_def by (rule py_strip_decomp)
  have "set (strip_sp p) \<subseteq> set (?a @ strip_sp p @ ?b)" by auto
  then show ?thesis unfolding s .
qed

text \<open>The first line of the cleaned text holds nothing that the first line of the text did not.\<close>

lemma dot_star_clean0: "set (dot_star (clean0 s)) \<subseteq> set (dot_star s)"
proof (induction s rule: length_induct)
  case (1 s)
  show ?case
  proof (cases "re_search not_crlf_star s")
    case None
    then show ?thesis by (simp add: clean0_None dot_star_strip)
  next
    case (Some t)
    obtain p m r where t: "t = (p, m, r)" by (cases t)
    note S = Some[unfolded t]
    have s: "s = p @ m @ r" by (rule re_search_partition[OF S])
    have mLF: "LF \<notin> set m" by (rule token_no_LF[OF S])
    define k where "k = (if comment_token m then [] else strip_sp m)"
    have kLF: "LF \<notin> set k" using mLF set_strip_sp[of m] by (auto simp: k_def)
    have km: "set k \<subseteq> set m" using set_strip_sp[of m] by (auto simp: k_def)
    have c: "clean0 s = strip_sp p @ k @ clean0 r" by (simp add: clean0_Some[OF S] k_def)
    from re_search_shorter[OF S] 1
    have IH: "set (dot_star (clean0 r)) \<subseteq> set (dot_star r)" by blast
    show ?thesis
    proof (cases "LF \<in> set p")
      case True
      then have "dot_star (p @ m @ r) = dot_star p" by (simp add: dot_star_append)
      moreover have "dot_star (strip_sp p @ k @ clean0 r) = dot_star (strip_sp p)"
        using True by (simp add: dot_star_append strip_sp_no_LF_iff)
      ultimately have "set (dot_star (strip_sp p @ k @ clean0 r)) \<subseteq> set (dot_star (p @ m @ r))"
        using dot_star_strip[of p] by simp
      then show ?thesis unfolding c[symmetric] s[symmetric] .
    next
      case False
      then have 1: "dot_star (p @ m @ r) = p @ m @ dot_star r"
        using mLF by (simp add: dot_star_append)
      have 2: "dot_star (strip_sp p @ k @ clean0 r) = strip_sp p @ k @ dot_star (clean0 r)"
        using False kLF by (simp add: dot_star_append strip_sp_no_LF_iff)
      have "set (strip_sp p @ k @ dot_star (clean0 r)) \<subseteq> set (p @ m @ dot_star r)"
        using set_strip_sp[of p] km IH by auto
      then have "set (dot_star (strip_sp p @ k @ clean0 r)) \<subseteq> set (dot_star (p @ m @ r))"
        unfolding 1 2 .
      then show ?thesis unfolding c[symmetric] s[symmetric] .
    qed
  qed
qed

text \<open>A literal token: its shape, and that it is matched again before any text whose
  first line holds no new quote.\<close>

lemma alt_quoted_Some:
  assumes "alt_quoted q s = Some n"
  shows "\<exists>y. take n s = q # y @ [q] \<and> LF \<notin> set y \<and> q \<notin> set (dot_star (drop n s))"
proof -
  from assms obtain cs where s: "s = q # cs" and qin: "q \<in> set (dot_star cs)"
    and n: "n = Suc (length (rev (dropWhile (\<lambda>x. x \<noteq> q) (rev (dot_star cs)))))"
    by (cases s) (auto simp: alt_quoted_def split: if_splits)
  from split_list_last[OF qin] obtain y z where run: "dot_star cs = y @ q # z" and z: "q \<notin> set z"
    by blast
  have "dropWhile (\<lambda>x. x \<noteq> q) (rev z) = []" using z by auto
  then have "rev (dropWhile (\<lambda>x. x \<noteq> q) (rev (dot_star cs))) = y @ [q]"
    by (simp add: run dropWhile_append)
  with n have n': "n = Suc (Suc (length y))" by simp
  define rest where "rest = dropWhile (\<lambda>c. c \<noteq> LF) cs"
  have "takeWhile (\<lambda>c. c \<noteq> LF) cs @ rest = cs" unfolding rest_def by simp
  then have "(y @ q # z) @ rest = cs" using run unfolding dot_star_def by simp
  then have cs: "cs = y @ q # z @ rest" by simp
  have LFrun: "LF \<notin> set (y @ q # z)" unfolding run[symmetric] dot_star_def
    by (auto dest: set_takeWhileD)
  have "rest \<noteq> [] \<Longrightarrow> \<not> (hd rest \<noteq> LF)" unfolding rest_def by (rule hd_dropWhile)
  then have hd_rest: "rest = [] \<or> hd rest = LF" by auto
  have tk: "take n s = q # y @ [q]" by (simp add: s cs n')
  have dr: "drop n s = z @ rest" by (simp add: s cs n')
  have "dot_star (z @ rest) = z"
    using LFrun hd_rest
    by (cases rest) (auto simp: dot_star_def takeWhile_tail takeWhile_eq_all_conv)
  with tk dr z LFrun show ?thesis by auto
qed

lemma literal_shape:
  assumes "re_match not_crlf_star s = Some n" and "\<not> comment_token (take n s)"
  shows "\<exists>q y. (q = DQ \<or> q = SQ) \<and> take n s = q # y @ [q] \<and> LF \<notin> set y \<and>
           q \<notin> set (dot_star (drop n s))"
proof -
  from re_match_token_head[OF assms(1)] assms(2) obtain c cs where
    s: "s = c # cs" and c: "c = DQ \<or> c = SQ" by auto
  from c have nh: "alt_hash not_crlf_star s = None" "alt_slashes not_crlf_star s = None"
    by (auto simp: s alt_hash_def alt_slashes_def split: list.splits)
  from assms(1) nh have "alt_quoted DQ s = Some n \<or> alt_quoted SQ s = Some n"
    by (auto simp: re_match_def split: option.splits)
  then show ?thesis
  proof
    assume "alt_quoted DQ s = Some n"
    from alt_quoted_Some[OF this] obtain y where
      "take n s = DQ # y @ [DQ] \<and> LF \<notin> set y \<and> DQ \<notin> set (dot_star (drop n s))" ..
    then show ?thesis by (intro exI[of _ DQ] exI[of _ y]) simp
  next
    assume "alt_quoted SQ s = Some n"
    from alt_quoted_Some[OF this] obtain y where
      "take n s = SQ # y @ [SQ] \<and> LF \<notin> set y \<and> SQ \<notin> set (dot_star (drop n s))" ..
    then show ?thesis by (intro exI[of _ SQ] exI[of _ y]) simp
  qed
qed

lemma alt_quoted_span':
  assumes "LF \<notin> set y" "q \<notin> set (dot_star t)" "q \<noteq> LF"
  shows "alt_quoted q (q # y @ q # t) = Some (Suc (Suc (length y)))"
proof -
  have ds: "dot_star (y @ q # t) = y @ q # dot_star t"
    using assms(1,3) unfolding dot_star_def by (induction y) auto
  have "dropWhile (\<lambda>x. x \<noteq> q) (rev (dot_star t)) = []" using assms(2) by auto
  then have "dropWhile (\<lambda>x. x \<noteq> q) (rev (y @ q # dot_star t)) = q # rev y"
    by (simp add: dropWhile_append)
  then show ?thesis by (simp add: alt_quoted_def ds)
qed

lemma literal_rematch:
  assumes "q = DQ \<or> q = SQ" "LF \<notin> set y" "q \<notin> set (dot_star t)"
  shows "re_match body (q # y @ q # t) = Some (Suc (Suc (length y)))"
  using assms(1)
proof
  assume "q = DQ"
  then show ?thesis using alt_quoted_span'[of y DQ t] assms by (simp add: re_match_def)
next
  assume q: "q = SQ"
  have "alt_quoted DQ (SQ # y @ SQ # t) = None" by (simp add: alt_quoted_def)
  then show ?thesis using alt_quoted_span'[of y SQ t] assms q by (simp add: re_match_def)
qed

text \<open>After a comment token the text ends or goes on with a line terminator.\<close>

lemma not_crlf_rest: "drop (length (not_crlf_star s)) s = [] \<or> hd (drop (length (not_crlf_star s)) s) \<in> {CR, LF}"
proof -
  have "drop (length (not_crlf_star s)) s = dropWhile (\<lambda>c. c \<noteq> CR \<and> c \<noteq> LF) s"
    unfolding not_crlf_star_def by (rule dropWhile_eq_drop[symmetric])
  moreover have "dropWhile (\<lambda>c. c \<noteq> CR \<and> c \<noteq> LF) s = [] \<or>
     hd (dropWhile (\<lambda>c. c \<noteq> CR \<and> c \<noteq> LF) s) \<in> {CR, LF}"
    using hd_dropWhile[of "\<lambda>c. c \<noteq> CR \<and> c \<noteq> LF" s] by auto
  ultimately show ?thesis by simp
qed

lemma comment_rest:
  assumes "re_match not_crlf_star s = Some n" and "comment_token (take n s)"
  shows "drop n s = [] \<or> hd (drop n s) \<in> {CR, LF}"
proof -
  from re_match_token_head[OF assms(1)] assms(2) obtain c cs where
    s: "s = c # cs" and c: "c = CHR ''#'' \<or> startswith s ''//''" by auto
  have nq: "alt_quoted DQ s = None" "alt_quoted SQ s = None"
    using c by (auto simp: s alt_quoted_def startswith_def)
  show ?thesis
  proof (cases "c = CHR ''#''")
    case True
    with assms(1) nq have "n = Suc (length (not_crlf_star cs))"
      by (auto simp: re_match_def s alt_hash_def)
    then show ?thesis using not_crlf_rest[of cs] by (simp add: s)
  next
    case False
    with c obtain ds where cs: "c = CHR ''/''" "cs = CHR ''/'' # ds"
      by (cases cs) (auto simp: s startswith_def)
    with assms(1) nq have "n = Suc (Suc (length (not_crlf_star ds)))"
      by (auto simp: re_match_def s alt_hash_def alt_slashes_def)
    then show ?thesis using not_crlf_rest[of ds] by (simp add: s cs)
  qed
qed

lemma clean0_Nil: "clean0 [] = []"
  by (simp add: clean0_None strip_sp_def py_strip_def)

lemma clean0_after_comment:
  assumes "r = [] \<or> hd r \<in> {CR, LF}"
  shows "\<not> startswith (clean0 r) ''/''"
proof (cases r)
  case Nil
  then show ?thesis by (simp add: clean0_Nil startswith_def)
next
  case (Cons c r')
  with assms have c: "c = CR \<or> c = LF" by auto
  then have nsp: "\<not> (c = SP)" by auto
  from c have nm: "re_match not_crlf_star (c # r') = None"
    unfolding re_match_None_iff by auto
  show ?thesis
  proof (cases "re_search not_crlf_star r'")
    case None
    with nm have "re_search not_crlf_star r = None" by (simp add: Cons)
    then have "clean0 r = strip_sp (c # r')" by (simp add: clean0_None Cons)
    also have "\<dots> = c # rev (dropWhile (\<lambda>c. c = SP) (rev r'))"
      unfolding strip_sp_def using nsp by (rule strip_keep_head)
    finally show ?thesis using c by (auto simp: startswith_def)
  next
    case (Some t)
    obtain p m r'' where t: "t = (p, m, r'')" by (cases t)
    from Some t nm have S: "re_search not_crlf_star r = Some (c # p, m, r'')" by (simp add: Cons)
    have "strip_sp (c # p) = c # rev (dropWhile (\<lambda>c. c = SP) (rev p))"
      unfolding strip_sp_def using nsp by (rule strip_keep_head)
    then show ?thesis using c by (auto simp: clean0_Some[OF S] startswith_def)
  qed
qed

lemma re_search_match_rest:
  "re_search body s = Some (p, m, r) \<Longrightarrow>
   \<exists>n. re_match body (m @ r) = Some n \<and> m = take n (m @ r) \<and> r = drop n (m @ r)"
proof (induction s arbitrary: p)
  case Nil
  then show ?case by simp
next
  case (Cons c cs)
  show ?case
  proof (cases "re_match body (c # cs)")
    case (Some n)
    with Cons.prems have m: "m = take n (c # cs)" and r: "r = drop n (c # cs)" by auto
    then have "m @ r = c # cs" by simp
    with Some m r show ?thesis by auto
  next
    case None
    with Cons.prems obtain p' where "re_search body cs = Some (p', m, r)"
      by (auto split: option.splits)
    from Cons.IH[OF this] show ?thesis .
  qed
qed

lemma re_match_search:
  "re_match body t = Some n \<Longrightarrow> re_search body t = Some ([], take n t, drop n t)"
  using re_match_pos[of body t n] by (cases t) auto

lemma strip_search_None:
  assumes "re_search not_crlf_star s = None"
  shows "re_search not_crlf_star (strip_sp s) = None"
proof -
  let ?a = "takeWhile (\<lambda>c. c = SP) s"
  let ?b = "rev (takeWhile (\<lambda>c. c = SP) (rev (dropWhile (\<lambda>c. c = SP) s)))"
  have s: "?a @ strip_sp s @ ?b = s" unfolding strip_sp_def by (rule py_strip_decomp)
  have "no_match s []" by (rule search_None_no_match[OF assms])
  then have "no_match (?a @ strip_sp s @ ?b) []" unfolding s .
  then have "no_match (strip_sp s) ?b" by (simp add: no_match_append)
  then have "no_match (strip_sp s) []"
    by (rule no_match_transfer) (simp_all add: dot_star_def startswith_def)
  from no_match_search[OF this] show ?thesis by simp
qed

lemma strip_no_match:
  assumes S: "re_search not_crlf_star s = Some (p, m, r)"
    and sub: "set (dot_star t') \<subseteq> set m \<union> set (dot_star r)"
    and ns: "\<not> startswith t' ''/''"
  shows "no_match (strip_sp p) t'"
proof -
  let ?a = "takeWhile (\<lambda>c. c = SP) p"
  let ?b = "rev (takeWhile (\<lambda>c. c = SP) (rev (dropWhile (\<lambda>c. c = SP) p)))"
  have p: "?a @ strip_sp p @ ?b = p" unfolding strip_sp_def by (rule py_strip_decomp)
  have b: "\<forall>x\<in>set ?b. x = SP" by (auto dest: set_takeWhileD)
  have "no_match p (m @ r)" by (rule search_no_match[OF S])
  then have "no_match (?a @ strip_sp p @ ?b) (m @ r)" unfolding p .
  then have 1: "no_match (strip_sp p) (?b @ m @ r)" by (simp add: no_match_append)
  have mLF: "LF \<notin> set m" by (rule token_no_LF[OF S])
  have "dot_star (?b @ m @ r) = ?b @ dot_star (m @ r)" by (rule dot_star_spaces[OF b])
  also have "dot_star (m @ r) = m @ dot_star r" using mLF by (simp add: dot_star_append)
  finally have "set m \<union> set (dot_star r) \<subseteq> set (dot_star (?b @ m @ r))" by auto
  with sub have 2: "set (dot_star t') \<subseteq> set (dot_star (?b @ m @ r))" by blast
  show ?thesis by (rule no_match_transfer[OF 1 2]) (simp add: ns)
qed

lemma count_tokens_None: "re_search body s = None \<Longrightarrow> count_tokens body s = 0"
  by (subst count_tokens.simps) simp

lemma count_tokens_Some:
  "re_search body s = Some (p, m, r) \<Longrightarrow> count_tokens body s = Suc (count_tokens body r)"
  by (subst count_tokens.simps) simp

lemma strip_sp_strip_sp [simp]: "strip_sp (strip_sp s) = strip_sp s"
  unfolding strip_sp_def by (rule py_strip_idem)

lemma strip_sp_append_fixed:
  "strip_sp a = a \<Longrightarrow> strip_sp b = b \<Longrightarrow> strip_sp (a @ b) = a @ b"
  unfolding strip_sp_def by (rule py_strip_append_fixed)

text \<open>
  The cleaned text, also behind a stripped prefix that holds no token, is cleaned to itself,
  and it holds no more tokens than the text it came from.
\<close>

lemma clean0_stable:
  "strip_sp u = u \<Longrightarrow> no_match u (clean0 s) \<Longrightarrow>
   clean0 (u @ clean0 s) = u @ clean0 s \<and>
   count_tokens not_crlf_star (u @ clean0 s) \<le> count_tokens not_crlf_star s"
proof (induction s arbitrary: u rule: length_induct)
  case (1 s)
  note su = "1.prems"(1) and nu = "1.prems"(2)
  show ?case
  proof (cases "re_search not_crlf_star s")
    case None
    have c: "clean0 s = strip_sp s" by (rule clean0_None[OF None])
    have "re_search not_crlf_star (strip_sp s) = None" by (rule strip_search_None[OF None])
    with no_match_search[OF nu[unfolded c]]
    have N: "re_search not_crlf_star (u @ strip_sp s) = None" by simp
    have "clean0 (u @ strip_sp s) = strip_sp (u @ strip_sp s)" by (rule clean0_None[OF N])
    also have "\<dots> = u @ strip_sp s" by (rule strip_sp_append_fixed[OF su]) simp
    finally show ?thesis unfolding c using count_tokens_None[OF N] by simp
  next
    case (Some t)
    obtain p m r where t: "t = (p, m, r)" by (cases t)
    note S = Some[unfolded t]
    from re_search_match_rest[OF S] obtain n where
      n: "re_match not_crlf_star (m @ r) = Some n" and m: "m = take n (m @ r)"
      and r: "r = drop n (m @ r)" by blast
    have len: "length r < length s" by (rule re_search_shorter[OF S])
    have cs: "count_tokens not_crlf_star s = Suc (count_tokens not_crlf_star r)"
      by (rule count_tokens_Some[OF S])
    have D: "set (dot_star (clean0 r)) \<subseteq> set (dot_star r)" by (rule dot_star_clean0)
    have sup: "strip_sp (u @ strip_sp p) = u @ strip_sp p"
      by (rule strip_sp_append_fixed[OF su]) simp
    show ?thesis
    proof (cases "comment_token m")
      case True
      have c: "clean0 s = strip_sp p @ clean0 r" using True by (simp add: clean0_Some[OF S])
      have "comment_token (take n (m @ r))" using True m by simp
      from comment_rest[OF n this] have "r = [] \<or> hd r \<in> {CR, LF}"
        unfolding r[symmetric] .
      then have ns: "\<not> startswith (clean0 r) ''/''" by (rule clean0_after_comment)
      have "no_match (strip_sp p) (clean0 r)"
        by (rule strip_no_match[OF S _ ns]) (use D in auto)
      with nu[unfolded c] have "no_match (u @ strip_sp p) (clean0 r)"
        by (simp add: no_match_append)
      with 1 len sup
      have "clean0 ((u @ strip_sp p) @ clean0 r) = (u @ strip_sp p) @ clean0 r \<and>
            count_tokens not_crlf_star ((u @ strip_sp p) @ clean0 r)
              \<le> count_tokens not_crlf_star r" by blast
      then show ?thesis unfolding c cs by simp
    next
      case False
      then have "\<not> comment_token (take n (m @ r))" using m by simp
      from literal_shape[OF n this] obtain q y where
        q: "q = DQ \<or> q = SQ" and tk: "take n (m @ r) = q # y @ [q]" and y: "LF \<notin> set y"
        and qr: "q \<notin> set (dot_star (drop n (m @ r)))" by blast
      have mq: "m = q # y @ [q]" using m tk by simp
      have qr': "q \<notin> set (dot_star r)" using qr unfolding r[symmetric] .
      have nsp: "q \<noteq> SP" using q by auto
      have sm: "strip_sp m = m" unfolding mq strip_sp_def using nsp by (intro py_strip_fixed) simp
      have c: "clean0 s = strip_sp p @ m @ clean0 r" using False sm by (simp add: clean0_Some[OF S])
      have qc: "q \<notin> set (dot_star (clean0 r))" using qr' D by blast
      have rm: "re_match not_crlf_star (m @ clean0 r) = Some (length m)"
        using literal_rematch[OF q y qc, of not_crlf_star] by (simp add: mq)
      have mLF: "LF \<notin> set m" using y q by (auto simp: mq)
      have "dot_star (m @ clean0 r) = m @ dot_star (clean0 r)"
        using mLF by (simp add: dot_star_append)
      then have sub: "set (dot_star (m @ clean0 r)) \<subseteq> set m \<union> set (dot_star r)"
        using D by auto
      have ns: "\<not> startswith (m @ clean0 r) ''/''" using q by (auto simp: mq startswith_def)
      have "no_match (strip_sp p) (m @ clean0 r)" by (rule strip_no_match[OF S sub ns])
      with nu[unfolded c] have nm: "no_match (u @ strip_sp p) (m @ clean0 r)"
        by (simp add: no_match_append)
      have "re_search not_crlf_star (m @ clean0 r) = Some ([], m, clean0 r)"
        using re_match_search[OF rm] by simp
      with no_match_search[OF nm]
      have S2: "re_search not_crlf_star ((u @ strip_sp p) @ m @ clean0 r) =
                  Some (u @ strip_sp p, m, clean0 r)" by simp
      have "strip_sp [] = []" by (simp add: strip_sp_def py_strip_def)
      with 1 len have IH: "clean0 ([] @ clean0 r) = [] @ clean0 r \<and>
            count_tokens not_crlf_star ([] @ clean0 r) \<le> count_tokens not_crlf_star r"
        by (metis no_match.simps(1))
      have "clean0 ((u @ strip_sp p) @ m @ clean0 r) =
              strip_sp (u @ strip_sp p) @ m @ clean0 (clean0 r)"
        unfolding clean0_Some[OF S2] using False sm by simp
      also have "\<dots> = (u @ strip_sp p) @ m @ clean0 r" using IH sup by simp
      finally have 1: "clean0 (u @ clean0 s) = u @ clean0 s" unfolding c by simp
      have "count_tokens not_crlf_star ((u @ strip_sp p) @ m @ clean0 r) =
              Suc (count_tokens not_crlf_star (clean0 r))"
        by (rule count_tokens_Some[OF S2])
      with IH have 2: "count_tokens not_crlf_star (u @ clean0 s) \<le> count_tokens not_crlf_star s"
        unfolding c cs by simp
      from 1 2 show ?thesis ..
    qed
  qed
qed

lemma clean0_idem: "clean0 (clean0 s) = clean0 s"
  using clean0_stable[of "[]" s] by (simp add: strip_sp_def py_strip_def)

lemma count_tokens_clean0:
  "count_tokens not_crlf_star (clean0 s) \<le> count_tokens not_crlf_star s"
  using clean0_stable[of "[]" s] by (simp add: strip_sp_def py_strip_def)

lemma cJSONStr_clean0:
  "count_tokens not_crlf_star s \<le> MULTILINE \<Longrightarrow> cJSONStr s = clean0 s"
  by (simp add: cJSONStr_within_limit clean0_def spans_def comment_token_def)


lemma length_strip_sp_le: "length (strip_sp p) \<le> length p"
  unfolding strip_sp_def py_strip_def
  using length_dropWhile_le[of "\<lambda>c. c = SP" "rev (dropWhile (\<lambda>c. c = SP) p)"]
        length_dropWhile_le[of "\<lambda>c. c = SP" p]
  by simp

lemma strip_sp_same_length: "length (strip_sp p) = length p \<Longrightarrow> strip_sp p = p"
proof -
  assume l: "length (strip_sp p) = length p"
  let ?a = "takeWhile (\<lambda>c. c = SP) p"
  let ?b = "rev (takeWhile (\<lambda>c. c = SP) (rev (dropWhile (\<lambda>c. c = SP) p)))"
  have p: "?a @ strip_sp p @ ?b = p" unfolding strip_sp_def by (rule py_strip_decomp)
  have "length (?a @ strip_sp p @ ?b) = length p" unfolding p ..
  with l have "?a = []" "?b = []" by auto
  with p show ?thesis by simp
qed

lemma length_kept_le: "length (kept ps) \<le> length (concat ps)"
proof (induction ps)
  case Nil
  show ?case by (simp add: kept_def)
next
  case (Cons p ps)
  then show ?case using length_strip_sp_le[of p] by (auto simp: kept_def)
qed

lemma comment_token_nonempty: "comment_token p \<Longrightarrow> p \<noteq> []"
  by (auto simp: comment_token_def startswith_def)

lemma kept_fixed_iff:
  "kept ps = concat ps \<longleftrightarrow> (\<forall>p\<in>set ps. \<not> comment_token p \<and> strip_sp p = p)"
proof (induction ps)
  case Nil
  show ?case by (simp add: kept_def)
next
  case (Cons p ps)
  define h where "h = (if comment_token p then [] else strip_sp p)"
  have k: "kept (p # ps) = h @ kept ps" by (simp add: kept_def h_def)
  have hl: "length h \<le> length p" using length_strip_sp_le[of p] by (simp add: h_def)
  show ?case
  proof
    assume eq: "kept (p # ps) = concat (p # ps)"
    then have e: "h @ kept ps = p @ concat ps" by (simp add: k)
    then have "length h + length (kept ps) = length p + length (concat ps)"
      by (metis length_append)
    with hl length_kept_le[of ps] have "length h = length p" by linarith
    with e have hp: "h = p" and kp: "kept ps = concat ps" by auto
    have nc: "\<not> comment_token p"
    proof
      assume c: "comment_token p"
      then have "h = []" by (simp add: h_def)
      with hp comment_token_nonempty[OF c] show False by simp
    qed
    with hp have "strip_sp p = p" by (simp add: h_def)
    with nc kp Cons.IH show "\<forall>q\<in>set (p # ps). \<not> comment_token q \<and> strip_sp q = q" by simp
  next
    assume a: "\<forall>q\<in>set (p # ps). \<not> comment_token q \<and> strip_sp q = q"
    then have "h = p" by (simp add: h_def)
    moreover from a Cons.IH have "kept ps = concat ps" by simp
    ultimately show "kept (p # ps) = concat (p # ps)" by (simp add: k)
  qed
qed

lemma clean0_fixed_iff:
  "clean0 x = x \<longleftrightarrow> (\<forall>p\<in>set (spans x). \<not> comment_token p \<and> strip_sp p = p)"
proof -
  have "concat (spans x) = x" by (simp add: spans_def re_split_def concat_re_split_from)
  then show ?thesis using kept_fixed_iff[of "spans x"] by (simp add: clean0_def kept_def)
qed


section \<open>The claims\<close>

text \<open>
  C1. The claim: the buffer cleaner removes every \<^verbatim>\<open>#\<close> or \<^verbatim>\<open>//\<close> comment outside a
  quoted literal, however many comments the input holds. The code passes \<^verbatim>\<open>re.MULTILINE\<close>,
  which is 8, as \<open>maxsplit\<close>: after eight splits the rest of the text is one last piece,
  kept as it is. Here the ninth comment \<^verbatim>\<open>#i\<close> of a nine-line list stays in the output.
\<close>

theorem cJSONStr_ninth_comment_survives:
  "cJSONStr nine_comments =
     ''[1,'' @ [LF] @ ''2,'' @ [LF] @ ''3,'' @ [LF] @ ''4,'' @ [LF] @
     ''5,'' @ [LF] @ ''6,'' @ [LF] @ ''7,'' @ [LF] @ ''8,'' @ [LF] @ ''9] #i''"
  by code_simp

text \<open>
  C2. The claim: \<^verbatim>\<open>read\<close> equals the buffer cleaner applied to the file's raw lines put
  together, up to trimming. The streaming cleaner drops a whole-line comment with its line
  feed; the buffer cleaner removes the comment and keeps the line feed. A difference of a
  line feed is no difference of trimming: neither output here holds a space, and the two
  differ.
\<close>

theorem read_drops_comment_line:
  "cJSONFile_read open_wrapper (set_lines 0 [''#c'' @ [LF], ''{}''] open_world) =
     (Inr ''{}'', open_wrapper, set_lines 0 [] open_world) \<and>
   cJSONStr (concat [''#c'' @ [LF], ''{}'']) = LF # ''{}'' \<and>
   SP \<notin> set ''{}'' \<and> SP \<notin> set (LF # ''{}'') \<and> ''{}'' \<noteq> LF # ''{}''"
  by code_simp

text \<open>
  C2, amended: take a line-oriented source and its lines that are not whole-line comments,
  with at most eight tokens in them. Then what \<^verbatim>\<open>read\<close> returns and what the buffer
  cleaner returns for these lines put together are both made of the same spans, in the
  same order: the spans of these lines that are not comment tokens, each one as it is in
  the input or without its leading spaces, its trailing spaces, or both. The two outputs
  can differ only in which ends of a span were trimmed; a quoted literal, which begins and
  ends with its quote character, is the same in both.
\<close>

theorem read_equals_buffer_on_kept_lines:
  assumes "file_handle self = Some fid" and "readable_handle wd fid" and "line_source ls"
    and "count_tokens not_crlf_star (concat (filter (\<lambda>l. \<not> whole_line_comment l) ls))
           \<le> MULTILINE"
  shows "\<exists>as bs.
           cJSONFile_read self (set_lines fid ls wd) =
             (Inr (concat as), self, set_lines fid [] wd) \<and>
           cJSONStr (concat (filter (\<lambda>l. \<not> whole_line_comment l) ls)) = concat bs \<and>
           list_all2 trimmed_of (kept_spans ls) as \<and>
           list_all2 trimmed_of (kept_spans ls) bs"
proof -
  let ?kept = "filter (\<lambda>l. \<not> whole_line_comment l) ls"
  have rd: "cJSONFile_read self (set_lines fid ls wd) =
              (Inr (concat (map cJSONFile_clean ?kept)), self, set_lines fid [] wd)"
    by (simp add: cJSONFile_read_def readlines_eq[OF assms(1,2)] cleaned_lines_def
          is_comment_eq)
  have src: "line_source ?kept" by (rule line_source_filter[OF assms(3)])
  from stream_pieces[of ?kept] obtain as where
    a: "concat (map cJSONFile_clean ?kept) = concat as"
       "list_all2 trimmed_of (kept_spans ls) as"
    unfolding kept_spans_def by blast
  from buffer_spans[OF src assms(4)] obtain bs where
    b: "cJSONStr (concat ?kept) = concat bs" "list_all2 trimmed_of (kept_spans ls) bs"
    unfolding kept_spans_def by blast
  from rd a b show ?thesis by auto
qed

theorem read_equals_buffer_on_kept_lines_witness:
  "file_handle open_wrapper = Some 0 \<and> readable_handle open_world 0 \<and> line_source four_lines \<and>
   count_tokens not_crlf_star (concat (filter (\<lambda>l. \<not> whole_line_comment l) four_lines))
     \<le> MULTILINE \<and>
   cJSONFile_read open_wrapper (set_lines 0 four_lines open_world) =
     (Inr (''{'' @ [LF] @ ''1'' @ [LF] @ ''}''), open_wrapper, set_lines 0 [] open_world) \<and>
   cJSONStr (concat (filter (\<lambda>l. \<not> whole_line_comment l) four_lines)) =
     ''{'' @ [LF] @ ''  1'' @ [LF] @ ''}'' \<and>
   (\<exists>as bs.
      cJSONFile_read open_wrapper (set_lines 0 four_lines open_world) =
        (Inr (concat as), open_wrapper, set_lines 0 [] open_world) \<and>
      cJSONStr (concat (filter (\<lambda>l. \<not> whole_line_comment l) four_lines)) = concat bs \<and>
      list_all2 trimmed_of (kept_spans four_lines) as \<and>
      list_all2 trimmed_of (kept_spans four_lines) bs)"
proof -
  have h1: "file_handle open_wrapper = Some 0" by (simp add: open_wrapper_def)
  have h2: "readable_handle open_world 0" by (simp add: readable_handle_def open_world_def)
  have h3: "line_source four_lines" by code_simp
  have h4: "count_tokens not_crlf_star
              (concat (filter (\<lambda>l. \<not> whole_line_comment l) four_lines)) \<le> MULTILINE"
    by code_simp
  have v1: "cJSONFile_read open_wrapper (set_lines 0 four_lines open_world) =
     (Inr (''{'' @ [LF] @ ''1'' @ [LF] @ ''}''), open_wrapper, set_lines 0 [] open_world)"
    by code_simp
  have v2: "cJSONStr (concat (filter (\<lambda>l. \<not> whole_line_comment l) four_lines)) =
     ''{'' @ [LF] @ ''  1'' @ [LF] @ ''}''"
    by code_simp
  from read_equals_buffer_on_kept_lines[OF h1 h2 h3 h4] h1 h2 h3 h4 v1 v2
  show ?thesis by blast
qed





text \<open>
  C4. A line whose first characters after its leading whitespace are \<^verbatim>\<open>//\<close> or \<^verbatim>\<open>#\<close>
  is skipped by every line-based read of a wrapper open for reading. \<^verbatim>\<open>__next__\<close> and
  \<^verbatim>\<open>readline\<close> meeting it go on to the first of the following lines that is not a
  whole-line comment and return that line cleaned; when there is none, \<^verbatim>\<open>__next__\<close>
  closes the file and raises \<^verbatim>\<open>StopIteration\<close>, and \<^verbatim>\<open>readline\<close> returns the empty
  string of the end of the file. \<^verbatim>\<open>readlines\<close> and \<^verbatim>\<open>read\<close> return the other lines that
  are not whole-line comments, cleaned, in their order. Nothing stands in the place of the
  comment line, not even an empty string.
\<close>

theorem whole_line_comment_never_surfaces:
  assumes "file_handle self = Some fid" and "readable_handle wd fid"
    and "whole_line_comment l"
  shows "cJSONFile_next self (set_lines fid (l # ls) wd) =
           (case dropWhile whole_line_comment ls of
              [] \<Rightarrow> (Inl StopIteration, self\<lparr>file_handle := None\<rparr>,
                     file_close fid (set_lines fid [] wd))
            | x # r \<Rightarrow> (Inr (cJSONFile_clean x), self, set_lines fid r wd)) \<and>
         cJSONFile_readline self (set_lines fid (l # ls) wd) =
           (case dropWhile whole_line_comment ls of
              [] \<Rightarrow> (Inr [], self, set_lines fid [] wd)
            | x # r \<Rightarrow> (Inr (cJSONFile_clean x), self, set_lines fid r wd)) \<and>
         cJSONFile_readlines self (set_lines fid (pre @ l # post) wd) =
           (Inr (map cJSONFile_clean (filter (\<lambda>x. \<not> whole_line_comment x) (pre @ post))),
            self, set_lines fid [] wd) \<and>
         cJSONFile_read self (set_lines fid (pre @ l # post) wd) =
           (Inr (concat (map cJSONFile_clean
                   (filter (\<lambda>x. \<not> whole_line_comment x) (pre @ post)))),
            self, set_lines fid [] wd)"
proof -
  have dw: "dropWhile whole_line_comment (l # ls) = dropWhile whole_line_comment ls"
    using assms(3) by simp
  have n: "cJSONFile_next self (set_lines fid (l # ls) wd) =
           (case dropWhile whole_line_comment ls of
              [] \<Rightarrow> (Inl StopIteration, self\<lparr>file_handle := None\<rparr>,
                     file_close fid (set_lines fid [] wd))
            | x # r \<Rightarrow> (Inr (cJSONFile_clean x), self, set_lines fid r wd))"
    unfolding next_eq[OF assms(1,2)] is_comment_eq dw ..
  have r: "cJSONFile_readline self (set_lines fid (l # ls) wd) =
           (case dropWhile whole_line_comment ls of
              [] \<Rightarrow> (Inr [], self, set_lines fid [] wd)
            | x # r \<Rightarrow> (Inr (cJSONFile_clean x), self, set_lines fid r wd))"
    unfolding readline_eq[OF assms(1,2)] is_comment_eq dw ..
  have cl: "cleaned_lines (pre @ l # post) =
              map cJSONFile_clean (filter (\<lambda>x. \<not> whole_line_comment x) (pre @ post))"
    using assms(3) by (simp add: cleaned_lines_def is_comment_eq)
  have rl: "cJSONFile_readlines self (set_lines fid (pre @ l # post) wd) =
           (Inr (map cJSONFile_clean (filter (\<lambda>x. \<not> whole_line_comment x) (pre @ post))),
            self, set_lines fid [] wd)"
    unfolding readlines_eq[OF assms(1,2)] cl ..
  have rd: "cJSONFile_read self (set_lines fid (pre @ l # post) wd) =
           (Inr (concat (map cJSONFile_clean
                   (filter (\<lambda>x. \<not> whole_line_comment x) (pre @ post)))),
            self, set_lines fid [] wd)"
    unfolding cJSONFile_read_def rl by simp
  from n r rl rd show ?thesis by (intro conjI)
qed

theorem whole_line_comment_never_surfaces_witness:
  "file_handle open_wrapper = Some 0 \<and> readable_handle open_world 0 \<and>
   whole_line_comment tab_comment \<and>
   cJSONFile_next open_wrapper (set_lines 0 [tab_comment, ''  # b'' @ [LF], ''1 # x''] open_world) =
     (Inr ''1'', open_wrapper, set_lines 0 [] open_world) \<and>
   cJSONFile_readline open_wrapper
       (set_lines 0 [tab_comment, ''  # b'' @ [LF], ''1 # x''] open_world) =
     (Inr ''1'', open_wrapper, set_lines 0 [] open_world) \<and>
   cJSONFile_next open_wrapper (set_lines 0 [tab_comment] open_world) =
     (Inl StopIteration, open_wrapper\<lparr>file_handle := None\<rparr>,
      file_close 0 (set_lines 0 [] open_world)) \<and>
   cJSONFile_readline open_wrapper (set_lines 0 [tab_comment] open_world) =
     (Inr [], open_wrapper, set_lines 0 [] open_world) \<and>
   cJSONFile_readlines open_wrapper
       (set_lines 0 ([''['' @ [LF]] @ tab_comment # [''1 # x'']) open_world) =
     (Inr [''['' @ [LF], ''1''], open_wrapper, set_lines 0 [] open_world) \<and>
   cJSONFile_read open_wrapper
       (set_lines 0 ([''['' @ [LF]] @ tab_comment # [''1 # x'']) open_world) =
     (Inr (''['' @ [LF] @ ''1''), open_wrapper, set_lines 0 [] open_world)"
proof -
  have h1: "file_handle open_wrapper = Some 0" by (simp add: open_wrapper_def)
  have h2: "readable_handle open_world 0" by (simp add: readable_handle_def open_world_def)
  have h3: "whole_line_comment tab_comment" by code_simp
  have e1: "dropWhile whole_line_comment [''  # b'' @ [LF], ''1 # x''] = [''1 # x'']"
    by code_simp
  have e2: "cJSONFile_clean ''1 # x'' = ''1''" by code_simp
  have e3: "map cJSONFile_clean
              (filter (\<lambda>x. \<not> whole_line_comment x) ([''['' @ [LF]] @ [''1 # x''])) =
            [''['' @ [LF], ''1'']"
    by code_simp
  note a = whole_line_comment_never_surfaces[OF h1 h2 h3,
             of "[''  # b'' @ [LF], ''1 # x'']" "[''['' @ [LF]]" "[''1 # x'']"]
  note b = whole_line_comment_never_surfaces[OF h1 h2 h3, of "[]" "[]" "[]"]
  from a b h1 h2 h3 show ?thesis unfolding e1 e3 by (simp add: e2)
qed

text \<open>
  C5. The claim: leaving the context closes the file and does not raise, also after the
  stream was exhausted inside the scope. When the \<^verbatim>\<open>for\<close> loop has run to the end,
  \<^verbatim>\<open>__next__\<close> has already set \<^verbatim>\<open>self._file\<close> to \<^verbatim>\<open>None\<close>, and \<^verbatim>\<open>__exit__\<close> calls
  \<^verbatim>\<open>None.close()\<close>: the loop returns the line, and the exit raises \<^verbatim>\<open>AttributeError\<close>.
\<close>

theorem exit_after_exhaustion_raises:
  "(case cJSONFile_init ''a.json'' ''r'' (Some ''utf-8'') one_line_world of
      (Inr jf, wd) \<Rightarrow>
        (case cJSONFile_enter jf wd of
           (Inr u, jf1, wd1) \<Rightarrow>
             (case for_loop jf1 wd1 of
                (r, jf2, wd2) \<Rightarrow> (r, fst (cJSONFile_exit jf2 wd2)))))
   = (Inr [''{}''], Inl AttributeError)"
  by code_simp

text \<open>
  C6. The claim: every binary mode is refused with \<^verbatim>\<open>ValueError\<close> before any file is
  opened. The mode \<^verbatim>\<open>ab+\<close> is not among the seven the constructor refuses; with
  \<^verbatim>\<open>encoding=None\<close> the file is created and opened in binary mode.
\<close>

theorem init_ab_plus_opens_binary:
  "cJSONFile_init ''a.bin'' ''ab+'' None \<lparr>files = [], handles = []\<rparr> =
     (Inr \<lparr>file_path = ''a.bin'', mode = ''ab+'', encoding = None, file_handle = Some 0\<rparr>,
      \<lparr>files = [(''a.bin'', [])],
       handles = [\<lparr>h_name = ''a.bin'', h_mode = ''ab+'', h_encoding = None,
                   h_binary = True, h_lines = [], h_readable = True,
                   h_closed = False\<rparr>]\<rparr>)"
  by code_simp

text \<open>
  C7. The claim: on a text with no quoted string and no \<^verbatim>\<open>#\<close> or \<^verbatim>\<open>//\<close> the buffer
  cleaner is the identity. The only span is the text itself, and it is stripped of spaces
  like every span: a text that begins or ends with a space comes back shorter.
\<close>

theorem cJSONStr_trims_plain_text:
  "cJSONStr '' [1, 2] '' = ''[1, 2]'' \<and> cJSONStr '' [1, 2] '' \<noteq> '' [1, 2] ''"
  by code_simp

text \<open>
  C7, amended: on a text with no quoted string and no \<^verbatim>\<open>#\<close> or \<^verbatim>\<open>//\<close> the buffer
  cleaner returns the text without its leading and trailing spaces; it is the identity
  exactly on those of these texts that are empty or neither begin nor end with a space.
\<close>

theorem cJSONStr_without_tokens:
  assumes "CHR ''#'' \<notin> set s" and "\<not> py_in ''//'' s" and "\<not> has_quoted s"
  shows "cJSONStr s = strip_sp s \<and>
         (cJSONStr s = s \<longleftrightarrow> s = [] \<or> (hd s \<noteq> SP \<and> last s \<noteq> SP))"
proof -
  have "re_split not_crlf_star MULTILINE s = [s]"
    unfolding re_split_def using re_search_None_plain[OF assms]
    by (subst re_split_from.simps) simp
  moreover have "\<not> startswith s ''//''" using assms(2) startswith_py_in by blast
  moreover have "\<not> startswith s ''#''" using assms(1) startswith_py_in py_in_hash by blast
  ultimately have 1: "cJSONStr s = strip_sp s" by (simp add: cJSONStr_def cJSONStr_clean_def)
  have 2: "strip_sp s = s \<longleftrightarrow> s = [] \<or> (hd s \<noteq> SP \<and> last s \<noteq> SP)"
  proof
    assume e: "strip_sp s = s"
    from py_strip_ends[of "\<lambda>c. c = SP" s]
    show "s = [] \<or> (hd s \<noteq> SP \<and> last s \<noteq> SP)"
      unfolding strip_sp_def[symmetric] e .
  next
    assume "s = [] \<or> (hd s \<noteq> SP \<and> last s \<noteq> SP)"
    then show "strip_sp s = s" unfolding strip_sp_def by (intro py_strip_fixed) simp
  qed
  from 1 2 show ?thesis by simp
qed

theorem cJSONStr_without_tokens_witness:
  "CHR ''#'' \<notin> set ''[1, 2] '' \<and> \<not> py_in ''//'' ''[1, 2] '' \<and> \<not> has_quoted ''[1, 2] '' \<and>
   cJSONStr ''[1, 2] '' = strip_sp ''[1, 2] '' \<and> strip_sp ''[1, 2] '' = ''[1, 2]''"
proof -
  have h1: "CHR ''#'' \<notin> set ''[1, 2] ''" by simp
  have h2: "\<not> py_in ''//'' ''[1, 2] ''" by (simp add: startswith_def)
  have h3: "\<not> has_quoted ''[1, 2] ''" by simp
  have "strip_sp ''[1, 2] '' = ''[1, 2]''" by (simp add: strip_sp_def py_strip_def)
  with cJSONStr_without_tokens[OF h1 h2 h3] h1 h2 h3 show ?thesis by blast
qed

text \<open>
  C8. The claim: a text without comment tokens comes back from the buffer cleaner
  unchanged. The cleaner also strips the spaces at both ends of every span, so a text
  without any comment can come back changed.
\<close>

theorem cJSONStr_moves_spaces:
  "\<not> list_ex comment_token (spans ([DQ] @ ''a'' @ [DQ] @ '' : 1'')) \<and>
   cJSONStr ([DQ] @ ''a'' @ [DQ] @ '' : 1'') = [DQ] @ ''a'' @ [DQ] @ '': 1'' \<and>
   cJSONStr ([DQ] @ ''a'' @ [DQ] @ '' : 1'') \<noteq> [DQ] @ ''a'' @ [DQ] @ '' : 1''"
  by code_simp

text \<open>
  C8, amended: on every text in which the scanner finds at most eight tokens, cleaning is
  idempotent, and the text is returned unchanged exactly when it holds no comment token and
  none of its spans begins or ends with a space.
\<close>

theorem cJSONStr_idempotent:
  assumes "count_tokens not_crlf_star x \<le> MULTILINE"
  shows "cJSONStr (cJSONStr x) = cJSONStr x \<and>
         (cJSONStr x = x \<longleftrightarrow> (\<forall>p\<in>set (spans x). \<not> comment_token p \<and> strip_sp p = p))"
proof -
  have 1: "cJSONStr x = clean0 x" by (rule cJSONStr_clean0[OF assms])
  have "count_tokens not_crlf_star (clean0 x) \<le> MULTILINE"
    using count_tokens_clean0[of x] assms by simp
  then have "cJSONStr (clean0 x) = clean0 (clean0 x)" by (rule cJSONStr_clean0)
  then have "cJSONStr (cJSONStr x) = cJSONStr x" unfolding 1 by (simp add: clean0_idem)
  then show ?thesis unfolding 1 using clean0_fixed_iff[of x] by simp
qed

theorem cJSONStr_idempotent_witness:
  "count_tokens not_crlf_star ([DQ] @ ''a'' @ [DQ] @ '' : 1 // c'') \<le> MULTILINE \<and>
   cJSONStr ([DQ] @ ''a'' @ [DQ] @ '' : 1 // c'') = [DQ] @ ''a'' @ [DQ] @ '': 1'' \<and>
   cJSONStr (cJSONStr ([DQ] @ ''a'' @ [DQ] @ '' : 1 // c'')) =
     cJSONStr ([DQ] @ ''a'' @ [DQ] @ '' : 1 // c'')"
proof -
  have h: "count_tokens not_crlf_star ([DQ] @ ''a'' @ [DQ] @ '' : 1 // c'') \<le> MULTILINE"
    by code_simp
  have v: "cJSONStr ([DQ] @ ''a'' @ [DQ] @ '' : 1 // c'') = [DQ] @ ''a'' @ [DQ] @ '': 1''"
    by code_simp
  from cJSONStr_idempotent[OF h] h v show ?thesis by blast
qed

text \<open>
  C9. The claim: for every source, a second iteration reopens it and yields the lines of
  the first pass. The wrapper reopens with the mode it was made with, and a mode of
  exclusive creation cannot open the file it has just created: with \<^verbatim>\<open>x+\<close> the first
  loop runs to the end over the new, empty file, and the second loop raises
  \<^verbatim>\<open>FileExistsError\<close>.
\<close>

theorem second_iteration_fails_for_x_mode:
  "(case cJSONFile_init ''new.json'' ''x+'' (Some ''utf-8'') \<lparr>files = [], handles = []\<rparr> of
      (Inr jf, wd1) \<Rightarrow>
        (case for_loop jf wd1 of
           (r1, jf2, wd2) \<Rightarrow> (r1, file_handle jf2, fst (for_loop jf2 wd2))))
   = (Inr [], None, Inl FileExistsError)"
  by code_simp

text \<open>
  C9, amended: let a wrapper be made with a mode that holds no \<^verbatim>\<open>x\<close>, and let a first
  \<^verbatim>\<open>for\<close> loop over it run to the end. Then the lines it yielded are the cleaned,
  non-comment lines the file object had to deliver (those of the file, for a mode that
  reads it); the wrapper has released the file object and left it closed; and a second
  loop on the same wrapper opens a file object with the wrapper's path, mode and encoding
  and yields the same lines.
\<close>

theorem iterate_twice_same_lines:
  assumes "cJSONFile_init path md enc wd = (Inr jf, wd1)" and "CHR ''x'' \<notin> set md"
    and "for_loop jf wd1 = (Inr ls, jf2, wd2)"
  shows "\<exists>fid content wd3.
           file_handle jf = Some fid \<and> h_lines (handles wd1 ! fid) = content \<and>
           (if mode_reading md then map_of (files wd) path = Some content else content = []) \<and>
           ls = cleaned_lines content \<and>
           file_handle jf2 = None \<and> h_closed (handles wd2 ! fid) \<and>
           for_loop jf2 wd2 = (Inr ls, jf2, wd3) \<and>
           file_path jf2 = path \<and> mode jf2 = md \<and> encoding jf2 = enc \<and>
           h_name (handles wd3 ! length (handles wd2)) = path \<and>
           h_mode (handles wd3 ! length (handles wd2)) = md \<and>
           h_encoding (handles wd3 ! length (handles wd2)) = enc"
proof -
  define self0 where "self0 = \<lparr>file_path = path, mode = md, encoding = enc, file_handle = None\<rparr>"
  from assms(1) obtain fid where op: "py_open path md enc wd = (Inr fid, wd1)"
    and jf: "jf = self0\<lparr>file_handle := Some fid\<rparr>"
    by (auto simp: cJSONFile_init_def cJSONFile_open_def self0_def Let_def
             split: if_splits prod.splits sum.splits)
  define h where "h = handles wd1 ! fid"
  from py_open_Inr[OF op] have fid: "fid = length (handles wd)"
    and len1: "length (handles wd1) = Suc (length (handles wd))"
    and hn: "h_name h = path" "h_mode h = md" "h_encoding h = enc" and hc: "\<not> h_closed h"
    and content: "if mode_reading md then map_of (files wd) path = Some (h_lines h)
                  else h_lines h = []"
    unfolding h_def by blast+
  have lt1: "fid < length (handles wd1)" using fid len1 by simp
  have jfh: "file_handle jf = Some fid" by (simp add: jf)
  have body1: "for_body jf wd1 = (Inr ls, jf2, wd2)"
    using assms(3) by (simp add: for_loop_def cJSONFile_iter_def jfh)
  have rd: "h_readable h"
  proof (rule ccontr)
    assume "\<not> h_readable h"
    with for_body_unreadable[OF jfh lt1] hc body1 show False by (simp add: h_def)
  qed
  have tmode: "\<not> h_binary h \<or> h_lines h = []"
  proof (rule ccontr)
    assume "\<not> (\<not> h_binary h \<or> h_lines h = [])"
    with for_body_bytes[OF jfh lt1] hc rd body1 show False by (auto simp: h_def)
  qed
  have pass1: "for_body jf wd1 =
      (Inr (cleaned_lines (h_lines h)), jf\<lparr>file_handle := None\<rparr>,
       file_close fid (set_lines fid [] wd1))"
    using for_body_reader[OF jfh lt1] hc rd tmode by (simp add: h_def)
  from body1 pass1 have ls: "ls = cleaned_lines (h_lines h)"
    and jf2: "jf2 = jf\<lparr>file_handle := None\<rparr>"
    and wd2: "wd2 = file_close fid (set_lines fid [] wd1)" by simp_all
  have closed1: "h_closed (handles wd2 ! fid)"
    using lt1 by (simp add: wd2 file_close_def lookup_handle_def set_lines_def)
  have files2: "files wd2 = files wd1"
    by (simp add: wd2 file_close_def lookup_handle_def set_lines_def)
  define fid' where "fid' = length (handles wd2)"
  from py_open_again[OF op assms(2), of wd2] files2 obtain wd2' where
    op2: "py_open path md enc wd2 = (Inr fid', wd2')"
    and hs2: "handles wd2' = handles wd2 @ [h]"
    unfolding fid'_def h_def by (cases "py_open path md enc wd2") auto
  define jf3 where "jf3 = jf2\<lparr>file_handle := Some fid'\<rparr>"
  have jf3h: "file_handle jf3 = Some fid'" by (simp add: jf3_def)
  have h2: "handles wd2' ! fid' = h" by (simp add: hs2 fid'_def)
  have lt2: "fid' < length (handles wd2')" by (simp add: hs2 fid'_def)
  have pass2: "for_body jf3 wd2' =
      (Inr (cleaned_lines (h_lines h)), jf3\<lparr>file_handle := None\<rparr>,
       file_close fid' (set_lines fid' [] wd2'))"
    using for_body_reader[OF jf3h lt2] hc rd tmode by (simp add: h2)
  have jf32: "jf3\<lparr>file_handle := None\<rparr> = jf2" by (simp add: jf3_def jf2)
  define wd3 where "wd3 = file_close fid' (set_lines fid' [] wd2')"
  have open2: "cJSONFile_open jf2 wd2 = (Inr fid', wd2')"
    using op2 by (simp add: cJSONFile_open_def jf2 jf self0_def)
  have loop2: "for_loop jf2 wd2 = (Inr ls, jf2, wd3)"
    using pass2 open2
    by (simp add: for_loop_def cJSONFile_iter_def jf2[THEN arg_cong, of file_handle]
          jf3_def[symmetric] jf32 wd3_def ls)
  have h3: "h_name (handles wd3 ! fid') = path" "h_mode (handles wd3 ! fid') = md"
    "h_encoding (handles wd3 ! fid') = enc"
    using hn lt2
    by (simp_all add: wd3_def file_close_def lookup_handle_def set_lines_def h2)
  have "file_handle jf2 = None" "file_path jf2 = path" "mode jf2 = md" "encoding jf2 = enc"
    by (simp_all add: jf2 jf self0_def)
  with jfh content ls closed1 loop2 h3 show ?thesis
    unfolding fid'_def h_def by blast
qed

theorem iterate_twice_same_lines_witness:
  "cJSONFile_init ''a.json'' ''r'' (Some ''utf-8'') one_line_world = (Inr open_wrapper, open_world) \<and>
   CHR ''x'' \<notin> set ''r'' \<and>
   for_loop open_wrapper open_world =
     (Inr [''{}''], open_wrapper\<lparr>file_handle := None\<rparr>,
      file_close 0 (set_lines 0 [] open_world)) \<and>
   (\<exists>wd3. for_loop (open_wrapper\<lparr>file_handle := None\<rparr>)
             (file_close 0 (set_lines 0 [] open_world)) =
           (Inr [''{}''], open_wrapper\<lparr>file_handle := None\<rparr>, wd3) \<and>
          h_name (handles wd3 ! 1) = ''a.json'' \<and> h_mode (handles wd3 ! 1) = ''r'' \<and>
          h_encoding (handles wd3 ! 1) = Some ''utf-8'')"
proof -
  have h1: "cJSONFile_init ''a.json'' ''r'' (Some ''utf-8'') one_line_world =
              (Inr open_wrapper, open_world)"
    by (simp add: cJSONFile_init_def cJSONFile_open_def py_open_def py_open_check_def
          mode_reading_def new_handle_def binary_modes_def one_line_world_def
          open_wrapper_def open_world_def)
  have h2: "CHR ''x'' \<notin> set ''r''" by simp
  have h3: "for_loop open_wrapper open_world =
     (Inr [''{}''], open_wrapper\<lparr>file_handle := None\<rparr>,
      file_close 0 (set_lines 0 [] open_world))"
    by code_simp
  have len: "length (handles (file_close 0 (set_lines 0 [] open_world))) = 1"
    by code_simp
  from iterate_twice_same_lines[OF h1 h2 h3] h1 h2 h3 show ?thesis
    unfolding len by blast
qed

text \<open>
  C10. Once the wrapper has released its file object, by \<^verbatim>\<open>__exit__\<close> or by \<^verbatim>\<open>__next__\<close>
  reaching the end of the file, \<^verbatim>\<open>__getattr__\<close> finds nothing to delegate to: every
  attribute that \<^verbatim>\<open>None\<close> does not have itself raises \<^verbatim>\<open>AttributeError\<close>, and so do
  \<^verbatim>\<open>closed\<close>, \<^verbatim>\<open>name\<close> and \<^verbatim>\<open>mode\<close>; the wrapper never answers that it is closed.
\<close>

theorem closed_wrapper_getattr_raises:
  assumes "cJSONFile_exit self wd = (Inr u, self', wd') \<or>
           cJSONFile_next self wd = (Inl StopIteration, self', wd')"
    and "attribute \<notin> set none_attrs"
  shows "cJSONFile_getattr self' wd' attribute = Inl AttributeError \<and>
         cJSONFile_getattr self' wd' ''closed'' = Inl AttributeError \<and>
         cJSONFile_getattr self' wd' ''name'' = Inl AttributeError \<and>
         cJSONFile_getattr self' wd' ''mode'' = Inl AttributeError"
proof -
  have "file_handle self' = None"
    using assms(1) next_StopIteration_released
    by (auto simp: cJSONFile_exit_def cJSONFile_close_def split: option.splits)
  then show ?thesis using assms(2)
    by (simp add: cJSONFile_getattr_def none_getattr_def none_attrs_def)
qed


theorem closed_wrapper_getattr_raises_witness:
  "(cJSONFile_exit open_wrapper open_world =
      (Inr (), open_wrapper\<lparr>file_handle := None\<rparr>, file_close 0 open_world) \<or>
    cJSONFile_next open_wrapper open_world =
      (Inl StopIteration, open_wrapper\<lparr>file_handle := None\<rparr>, file_close 0 open_world)) \<and>
   ''encoding'' \<notin> set none_attrs \<and>
   cJSONFile_getattr (open_wrapper\<lparr>file_handle := None\<rparr>) (file_close 0 open_world) ''encoding'' =
     Inl AttributeError \<and>
   cJSONFile_getattr (open_wrapper\<lparr>file_handle := None\<rparr>) (file_close 0 open_world) ''closed'' =
     Inl AttributeError \<and>
   cJSONFile_getattr (open_wrapper\<lparr>file_handle := None\<rparr>) (file_close 0 open_world) ''name'' =
     Inl AttributeError \<and>
   cJSONFile_getattr (open_wrapper\<lparr>file_handle := None\<rparr>) (file_close 0 open_world) ''mode'' =
     Inl AttributeError"
proof -
  have h1: "cJSONFile_exit open_wrapper open_world =
              (Inr (), open_wrapper\<lparr>file_handle := None\<rparr>, file_close 0 open_world) \<or>
            cJSONFile_next open_wrapper open_world =
              (Inl StopIteration, open_wrapper\<lparr>file_handle := None\<rparr>, file_close 0 open_world)"
    by (simp add: cJSONFile_exit_def cJSONFile_close_def open_wrapper_def)
  have h2: "''encoding'' \<notin> set none_attrs" by (simp add: none_attrs_def)
  from closed_wrapper_getattr_raises[OF h1 h2] h1 h2 show ?thesis by blast
qed

end
